theory Spec2Isabelle
  imports Main "HOL-Library.Word" "HOL-Library.Sublist"
begin

unbundle bit_operations_syntax

section \<open>The document tree\<close>

text \<open>
  The ten type tags of \<^verbatim>\<open>node_type\<close>. The enumeration is used throughout the
  sources (\<^verbatim>\<open>node_type::table\<close>, \<^verbatim>\<open>node_type::none\<close>, ...).
\<close>

datatype node_type =
  none | table | array | string | integer | floating_point | boolean | date | time | date_time

text \<open>
  Payloads of the temporal values; the fields are the ones read by
  \<^verbatim>\<open>print_to_stream\<close> (\<^verbatim>\<open>val.year\<close>, \<^verbatim>\<open>val.nanosecond\<close>, \<^verbatim>\<open>val.offset\<close>, ...).
\<close>

record toml_date =
  year :: nat
  month :: nat
  day :: nat

record toml_time =
  hour :: nat
  minute :: nat
  second :: nat
  nanosecond :: nat

record toml_date_time =
  dt_date :: toml_date
  dt_time :: toml_time
  offset :: "int option"

text \<open>A \<^verbatim>\<open>double\<close> is kept as its 64-bit pattern, an \<^verbatim>\<open>int64_t\<close> as a 64-bit word.\<close>

type_synonym double = "64 word"
type_synonym int64 = "64 word"

text \<open>
  A node is a table (inline flag and key/value entries in iteration order), an array
  (the elements of \<^verbatim>\<open>elems_\<close>) or one of the seven \<^verbatim>\<open>value<T>\<close> leaves. No node has the
  tag \<^verbatim>\<open>none\<close>.
\<close>

datatype node =
    Table bool "(string \<times> node) list"
  | Array "node list"
  | Value_string string
  | Value_int64 int64
  | Value_double double
  | Value_bool bool
  | Value_date toml_date
  | Value_time toml_time
  | Value_date_time toml_date_time

fun type :: "node \<Rightarrow> node_type" where
  "type (Table _ _) = table"
| "type (Array _) = array"
| "type (Value_string _) = string"
| "type (Value_int64 _) = integer"
| "type (Value_double _) = floating_point"
| "type (Value_bool _) = boolean"
| "type (Value_date _) = date"
| "type (Value_time _) = time"
| "type (Value_date_time _) = date_time"

fun as_array :: "node \<Rightarrow> node list option" where
  "as_array (Array xs) = Some xs"
| "as_array _ = None"

fun is_inline :: "node \<Rightarrow> bool" where
  "is_inline (Table inl _) = inl"
| "is_inline _ = False"

section \<open>Array: homogeneity\<close>

text \<open>The range-for loop of both \<^verbatim>\<open>is_homogeneous\<close> bodies: false at the first mismatch.\<close>

fun all_of_type :: "node_type \<Rightarrow> node list \<Rightarrow> bool" where
  "all_of_type ntype [] = True"
| "all_of_type ntype (val # vals) = (if type val \<noteq> ntype then False else all_of_type ntype vals)"

text \<open>\<^verbatim>\<open>array::is_homogeneous(node_type)\<close>.\<close>

definition is_homogeneous :: "node list \<Rightarrow> node_type \<Rightarrow> bool" where
  "is_homogeneous elems ntype =
     (case elems of
        [] \<Rightarrow> False
      | e0 # _ \<Rightarrow>
          (let ntype = (if ntype = none then type e0 else ntype)
           in all_of_type ntype elems))"

text \<open>
  \<^verbatim>\<open>array_is_homogeneous(elements, ntype, first_nonmatch)\<close>. The out-parameter is a
  pointer to an element of the array or null: \<open>Some i\<close> points at \<open>elements[i]\<close>, \<open>None\<close> is
  the null pointer. The function returns its result together with the out-parameter's
  value on return. The loop carries the position \<open>i\<close> of \<open>val\<close>.
\<close>

fun first_mismatch_loop :: "node_type \<Rightarrow> nat \<Rightarrow> node list \<Rightarrow> nat option \<Rightarrow> bool \<times> nat option" where
  "first_mismatch_loop ntype i [] first_nonmatch = (True, first_nonmatch)"
| "first_mismatch_loop ntype i (val # vals) first_nonmatch =
     (if type val \<noteq> ntype then (False, Some i)
      else first_mismatch_loop ntype (Suc i) vals first_nonmatch)"

definition array_is_homogeneous :: "node list \<Rightarrow> node_type \<Rightarrow> nat option \<Rightarrow> bool \<times> nat option" where
  "array_is_homogeneous elements ntype first_nonmatch =
     (case elements of
        [] \<Rightarrow> (False, None)
      | e0 # _ \<Rightarrow>
          (let ntype = (if ntype = none then type e0 else ntype)
           in first_mismatch_loop ntype 0 elements first_nonmatch))"

section \<open>Array: leaf count and flatten\<close>

text \<open>\<^verbatim>\<open>array::total_leaf_count\<close>: nested arrays count their own leaves, anything else is 1.\<close>

fun total_leaf_count :: "node list \<Rightarrow> nat" where
  "total_leaf_count [] = 0"
| "total_leaf_count (Array ys # xs) = total_leaf_count ys + total_leaf_count xs"
| "total_leaf_count (x # xs) = 1 + total_leaf_count xs"

text \<open>
  The storage \<^verbatim>\<open>elems_\<close> is a \<^verbatim>\<open>std::vector<std::unique_ptr<node>>\<close>. While \<^verbatim>\<open>flatten\<close>
  relocates elements some slots hold a null (moved-from) pointer: a slot is \<open>None\<close> when
  null and \<open>Some n\<close> when it owns \<open>n\<close>. Every function that indexes the vector returns
  \<open>None\<close> where the source would index out of range, dereference a null pointer or fail
  an assertion.
\<close>

type_synonym elems = "node option list"

text \<open>
  \<^verbatim>\<open>elems_[right] = std::move(elems_[left])\<close>: the target takes the pointer, the source
  slot is left null (a self-move leaves the slot as it is).
\<close>

definition move_slot :: "nat \<Rightarrow> nat \<Rightarrow> elems \<Rightarrow> elems option" where
  "move_slot right left es =
     (if right < length es \<and> left < length es
      then Some (if right = left then es else es[right := es ! left, left := None])
      else None)"

text \<open>
  The loop of \<^verbatim>\<open>preinsertion_resize\<close>:
  \<^verbatim>\<open>for (left = old_size, right = new_size - 1u; left-- > idx; right--)\<close>.
  The first argument is \<open>left\<close> before the test-and-decrement.
\<close>

fun preinsertion_shift :: "nat \<Rightarrow> nat \<Rightarrow> nat \<Rightarrow> elems \<Rightarrow> elems option" where
  "preinsertion_shift 0 idx right es = Some es"
| "preinsertion_shift (Suc left) idx right es =
     (if Suc left > idx
      then (case move_slot right left es of
              None \<Rightarrow> None
            | Some es' \<Rightarrow> preinsertion_shift left idx (right - 1) es')
      else Some es)"

text \<open>\<^verbatim>\<open>array::preinsertion_resize(idx, count)\<close>; \<^verbatim>\<open>resize\<close> appends null pointers.\<close>

definition preinsertion_resize :: "nat \<Rightarrow> nat \<Rightarrow> elems \<Rightarrow> elems option" where
  "preinsertion_resize idx count es =
     (if \<not> idx \<le> length es \<or> \<not> count \<ge> 1 then None
      else
        (let old_size = length es;
             new_size = old_size + count;
             inserting_at_end = (idx = old_size);
             es = es @ replicate count None
         in if \<not> inserting_at_end
            then preinsertion_shift old_size idx (new_size - 1) es
            else Some es))"

text \<open>
  \<^verbatim>\<open>array::flatten_child(child, dest_index)\<close>: the state is \<^verbatim>\<open>elems_\<close> with
  \<^verbatim>\<open>dest_index\<close>; the child array has been moved out of the vector and is read only.
\<close>

fun flatten_child :: "node list \<Rightarrow> elems \<times> nat \<Rightarrow> (elems \<times> nat) option" where
  "flatten_child [] st = Some st"
| "flatten_child (Array arr # child) st =
     (if arr \<noteq> []
      then (case flatten_child arr st of
              None \<Rightarrow> None
            | Some st' \<Rightarrow> flatten_child child st')
      else flatten_child child st)"
| "flatten_child (x # child) (es, dest_index) =
     (if dest_index < length es
      then flatten_child child (es[dest_index := Some x], Suc dest_index)
      else None)"

text \<open>
  The first loop of \<^verbatim>\<open>array::flatten\<close>, \<^verbatim>\<open>for (size_t i = elems_.size(); i-- > 0u;)\<close>,
  on the state (\<^verbatim>\<open>elems_\<close>, \<^verbatim>\<open>requires_flattening\<close>, \<^verbatim>\<open>size_after_flattening\<close>). The first
  argument is \<open>i\<close> before the test-and-decrement. \<^verbatim>\<open>size_after_flattening\<close> only feeds
  \<^verbatim>\<open>reserve\<close>; it is a natural number here.
\<close>

definition erase :: "nat \<Rightarrow> 'a list \<Rightarrow> 'a list" where
  "erase i es = take i es @ drop (Suc i) es"

fun flatten_scan :: "nat \<Rightarrow> elems \<times> bool \<times> nat \<Rightarrow> (elems \<times> bool \<times> nat) option" where
  "flatten_scan 0 st = Some st"
| "flatten_scan (Suc i) (es, requires_flattening, size_after_flattening) =
     (if \<not> i < length es then None
      else case es ! i of
        None \<Rightarrow> None
      | Some n \<Rightarrow>
         (case as_array n of
            None \<Rightarrow> flatten_scan i (es, requires_flattening, size_after_flattening)
          | Some arr \<Rightarrow>
             (let size_after_flattening = size_after_flattening - 1;
                  leaf_count = total_leaf_count arr
              in if leaf_count > 0
                 then flatten_scan i (es, True, size_after_flattening + leaf_count)
                 else flatten_scan i (erase i es, requires_flattening, size_after_flattening))))"

text \<open>
  The second loop of \<^verbatim>\<open>array::flatten\<close>, \<^verbatim>\<open>while (i < elems_.size())\<close>, on the state
  (\<^verbatim>\<open>elems_\<close>, \<open>i\<close>). One iteration is \<open>flatten_step\<close>; \<open>None\<close> is undefined behaviour in the
  source.
\<close>

definition flatten_step :: "elems \<times> nat \<Rightarrow> (elems \<times> nat) option" where
  "flatten_step st =
     (case st of (es, i) \<Rightarrow>
        (case es ! i of
           None \<Rightarrow> None
         | Some n \<Rightarrow>
            (case as_array n of
               None \<Rightarrow> Some (es, Suc i)
             | Some arr \<Rightarrow>
                (let es = es[i := None];
                     leaf_count = total_leaf_count arr
                 in case (if leaf_count > 1
                          then preinsertion_resize (i + 1) (leaf_count - 1) es
                          else Some es) of
                      None \<Rightarrow> None
                    | Some es \<Rightarrow> flatten_child arr (es, i)))))"

text \<open>
  The flattened sequence in the words of the specification: every nested array is
  replaced by its own leaves, depth first and left to right; an empty nested array
  contributes nothing.
\<close>

fun flatten_spec :: "node list \<Rightarrow> node list" where
  "flatten_spec [] = []"
| "flatten_spec (Array ys # xs) = flatten_spec ys @ flatten_spec xs"
| "flatten_spec (x # xs) = x # flatten_spec xs"

subsection \<open>Termination of the relocation loop\<close>

lemma move_slot_length: "move_slot r l es = Some es' \<Longrightarrow> length es' = length es"
  by (auto simp: move_slot_def split: if_splits)

lemma preinsertion_shift_length:
  "preinsertion_shift left idx right es = Some es' \<Longrightarrow> length es' = length es"
  by (induction left arbitrary: right es)
     (auto split: if_splits option.splits dest: move_slot_length)

lemma preinsertion_resize_length:
  "preinsertion_resize idx count es = Some es' \<Longrightarrow> length es' = length es + count"
  by (auto simp: preinsertion_resize_def Let_def split: if_splits dest: preinsertion_shift_length)

lemma flatten_child_facts:
  "flatten_child child st = Some st' \<Longrightarrow>
     length (fst st') = length (fst st) \<and> snd st' = snd st + total_leaf_count child \<and>
     (total_leaf_count child = 0 \<longrightarrow> st' = st)"
proof (induction child st arbitrary: st' rule: flatten_child.induct)
  case (1 st)
  then show ?case by simp
next
  case (2 arr child st)
  show ?case
  proof (cases "arr = []")
    case True
    with "2.prems" have "flatten_child child st = Some st'" by simp
    from "2.IH"(3)[OF _ this] True show ?thesis by simp
  next
    case False
    with "2.prems" obtain st1 where
      a: "flatten_child arr st = Some st1" and b: "flatten_child child st1 = Some st'"
      by (simp split: option.splits)
    from "2.IH"(1)[OF False a] "2.IH"(2)[OF False a b] show ?thesis by simp
  qed
qed (simp_all split: if_splits)

lemma flatten_step_measure:
  assumes "i < length es" "flatten_step (es, i) = Some (es', i')"
  shows "length es' - i' < length es - i \<or>
         (length es' - i' = length es - i \<and> es ! i \<noteq> None \<and> i' < length es' \<and> es' ! i' = None)"
proof (cases "es ! i")
  case None
  with assms show ?thesis by (simp add: flatten_step_def)
next
  case (Some n)
  show ?thesis
  proof (cases "as_array n")
    case None
    with Some assms show ?thesis by (auto simp: flatten_step_def)
  next
    case (Some arr)
    let ?lc = "total_leaf_count arr"
    from assms \<open>es ! i = Some n\<close> Some obtain es2 where
      r: "(if ?lc > 1 then preinsertion_resize (i + 1) (?lc - 1) (es[i := None]) else Some (es[i := None])) = Some es2"
      and fc: "flatten_child arr (es2, i) = Some (es', i')"
      by (auto simp: flatten_step_def Let_def split: option.splits)
    from fc have f: "length es' = length es2" "i' = i + ?lc" "?lc = 0 \<longrightarrow> (es', i') = (es2, i)"
      using flatten_child_facts[OF fc] by auto
    show ?thesis
    proof (cases "?lc > 1")
      case True
      with r have "length es2 = length es + (?lc - 1)"
        by (auto dest: preinsertion_resize_length)
      with f True assms(1) show ?thesis by auto
    next
      case False
      with r have e: "es2 = es[i := None]" by auto
      show ?thesis
      proof (cases "?lc = 0")
        case True
        with f e assms(1) \<open>es ! i = Some n\<close> show ?thesis by auto
      next
        case False
        with \<open>\<not> ?lc > 1\<close> f e assms(1) show ?thesis by auto
      qed
    qed
  qed
qed

text \<open>The loop itself: it stops when \<open>i\<close> reaches the end of the vector.\<close>

function flatten_loop :: "elems \<times> nat \<Rightarrow> elems option" where
  "flatten_loop (es, i) =
     (if i < length es
      then (case flatten_step (es, i) of
              None \<Rightarrow> None
            | Some st \<Rightarrow> flatten_loop st)
      else Some es)"
  by pat_completeness auto
termination
proof (relation "measures [\<lambda>(es, i). length es - i,
                           \<lambda>(es, i). if i < length es \<and> es ! i = None then 0 else 1]")
  show "wf (measures [\<lambda>(es, i). length es - i,
                           \<lambda>(es, i). if i < length es \<and> es ! i = None then 0 else (1::nat)])"
    by simp
next
  fix es :: elems and i st
  assume a: "i < length es" "flatten_step (es, i) = Some st"
  obtain es' i' where st: "st = (es', i')" by (cases st)
  from flatten_step_measure[OF a(1) a(2)[unfolded st]]
  show "(st, es, i) \<in> measures [\<lambda>(es, i). length es - i,
                           \<lambda>(es, i). if i < length es \<and> es ! i = None then 0 else 1]"
    unfolding st by auto
qed

text \<open>
  \<^verbatim>\<open>array::flatten\<close>. The result is the array afterwards; a vector that still held a null
  pointer would be no array (\<open>None\<close>, as for undefined behaviour). \<^verbatim>\<open>reserve\<close> changes the
  capacity only.
\<close>

definition flatten :: "node list \<Rightarrow> node list option" where
  "flatten elems =
     (if elems = [] then Some elems
      else case flatten_scan (length elems) (map Some elems, False, length elems) of
        None \<Rightarrow> None
      | Some (es, requires_flattening, size_after_flattening) \<Rightarrow>
          if \<not> requires_flattening then those es
          else (case flatten_loop (es, 0) of
                  None \<Rightarrow> None
                | Some es \<Rightarrow> those es))"

text \<open>The elements the first loop of \<^verbatim>\<open>flatten\<close> leaves in place: everything but arrays without leaves.\<close>

definition keep :: "node \<Rightarrow> bool" where
  "keep n = (case as_array n of None \<Rightarrow> True | Some arr \<Rightarrow> total_leaf_count arr > 0)"

section \<open>Array: copy assignment\<close>

text \<open>
  Every node is owned by its parent container or, for a root, by the caller. The store
  maps the address of a root to its tree; an object inside a tree is reached from its
  root by the chain of its owners: a path of array positions and table keys. Two
  references denote the same object iff they are equal. A reference whose path leads
  nowhere denotes no live object: using it is undefined in the source.
\<close>

datatype step = Index nat | Key string

type_synonym addr = nat
type_synonym reference = "addr \<times> step list"
type_synonym store = "addr \<Rightarrow> node option"

fun lookup :: "node \<Rightarrow> step list \<Rightarrow> node option" where
  "lookup n [] = Some n"
| "lookup (Array elems) (Index i # p) = (if i < length elems then lookup (elems ! i) p else None)"
| "lookup (Table inl tbl) (Key k # p) =
     (case map_of tbl k of None \<Rightarrow> None | Some v \<Rightarrow> lookup v p)"
| "lookup _ _ = None"

text \<open>The entries of a table with the value under the key \<open>k\<close> replaced.\<close>

fun update_entry :: "string \<Rightarrow> node \<Rightarrow> (string \<times> node) list \<Rightarrow> (string \<times> node) list" where
  "update_entry k v [] = []"
| "update_entry k v (kv # tbl) =
     (if fst kv = k then (k, v) # tbl else kv # update_entry k v tbl)"

text \<open>The tree with the object at a path replaced; \<open>None\<close> when the path leads nowhere.\<close>

fun replace :: "node \<Rightarrow> step list \<Rightarrow> node \<Rightarrow> node option" where
  "replace n [] new = Some new"
| "replace (Array elems) (Index i # p) new =
     (if i < length elems
      then (case replace (elems ! i) p new of
              None \<Rightarrow> None
            | Some c \<Rightarrow> Some (Array (elems[i := c])))
      else None)"
| "replace (Table inl tbl) (Key k # p) new =
     (case map_of tbl k of
        None \<Rightarrow> None
      | Some v \<Rightarrow>
          (case replace v p new of
             None \<Rightarrow> None
           | Some c \<Rightarrow> Some (Table inl (update_entry k c tbl))))"
| "replace _ _ _ = None"

text \<open>
  The vector \<^verbatim>\<open>elems_\<close> of the array a reference denotes, and the store after that vector
  has been given new contents. The nodes the vector owned before are destroyed with
  everything they own: no path leads to them any more.
\<close>

definition elems_of :: "store \<Rightarrow> reference \<Rightarrow> node list option" where
  "elems_of h r =
     (case h (fst r) of
        None \<Rightarrow> None
      | Some root \<Rightarrow>
          (case lookup root (snd r) of
             Some (Array elems) \<Rightarrow> Some elems
           | _ \<Rightarrow> None))"

definition set_elems :: "reference \<Rightarrow> node list \<Rightarrow> store \<Rightarrow> store option" where
  "set_elems r elems h =
     (case elems_of h r of
        None \<Rightarrow> None
      | Some _ \<Rightarrow>
          (case h (fst r) of
             None \<Rightarrow> None
           | Some root \<Rightarrow>
               (case replace root (snd r) (Array elems) of
                  None \<Rightarrow> None
                | Some root' \<Rightarrow> Some (h(fst r \<mapsto> root')))))"

text \<open>
  Modelled from the spec: \<^verbatim>\<open>impl::make_node\<close> is declared outside the sources. Copying
  deep-copies all descendants: the new node is a separate object with the value of the
  original, so on values it is the identity.
\<close>

definition make_node :: "node \<Rightarrow> node" where
  "make_node elem = elem"

text \<open>
  The loop \<^verbatim>\<open>for (const auto& elem : rhs) elems_.emplace_back(impl::make_node(elem))\<close>. The
  range is fixed when the loop starts: \<open>i\<close> is the position of the iterator in \<open>rhs\<close> and
  \<open>n\<close> the number of iterations left; each element is read from the store as it is then.
\<close>

fun copy_elems :: "reference \<Rightarrow> reference \<Rightarrow> nat \<Rightarrow> nat \<Rightarrow> store \<Rightarrow> store option" where
  "copy_elems this rhs i 0 h = Some h"
| "copy_elems this rhs i (Suc n) h =
     (case elems_of h rhs of
        None \<Rightarrow> None
      | Some src \<Rightarrow>
          if \<not> i < length src then None
          else (case elems_of h this of
                  None \<Rightarrow> None
                | Some dst \<Rightarrow>
                    (case set_elems this (dst @ [make_node (src ! i)]) h of
                       None \<Rightarrow> None
                     | Some h \<Rightarrow> copy_elems this rhs (Suc i) n h)))"

text \<open>
  \<^verbatim>\<open>array::operator=(const array& rhs)\<close> on the object \<open>this\<close>. The base-class assignment
  \<^verbatim>\<open>node::operator=(rhs)\<close> reads \<open>rhs\<close> and does not touch \<^verbatim>\<open>elems_\<close>; \<^verbatim>\<open>elems_.clear()\<close>
  destroys the nodes the destination owns; \<^verbatim>\<open>reserve\<close> reads the size of \<open>rhs\<close> and changes
  the capacity only.
\<close>

definition copy_assign :: "reference \<Rightarrow> reference \<Rightarrow> store \<Rightarrow> store option" where
  "copy_assign this rhs h =
     (if rhs \<noteq> this
      then (case elems_of h rhs of
              None \<Rightarrow> None
            | Some _ \<Rightarrow>
               (case set_elems this [] h of
                  None \<Rightarrow> None
                | Some h \<Rightarrow>
                    (case elems_of h rhs of
                       None \<Rightarrow> None
                     | Some src \<Rightarrow> copy_elems this rhs 0 (length src) h)))
      else Some h)"

text \<open>
  Two references are separate when neither object owns the other: they lie in different
  roots, or neither path is a prefix of the other.
\<close>

definition separate :: "reference \<Rightarrow> reference \<Rightarrow> bool" where
  "separate r s = (fst r \<noteq> fst s \<or> (\<not> prefix (snd r) (snd s) \<and> \<not> prefix (snd s) (snd r)))"

section \<open>Numeric encoder\<close>

text \<open>
  Modelled from the spec: the enumeration \<^verbatim>\<open>value_flags\<close> is declared outside the sources;
  the specification names the per-value format hints binary, octal and hexadecimal, and
  the sources the enumerators used here (\<^verbatim>\<open>value_flags::none\<close> is \<open>value_flags_none\<close>).
\<close>

datatype value_flags = value_flags_none | format_as_binary | format_as_octal | format_as_hexadecimal

text \<open>
  \<^verbatim>\<open>std::to_chars(first, last, value, base)\<close> of the C++ standard library: the digits
  \<^verbatim>\<open>0..9a..z\<close> of the magnitude without leading zeros, after a minus sign when the value
  is negative.
\<close>

definition digit_char :: "nat \<Rightarrow> char" where
  "digit_char d = ''0123456789abcdefghijklmnopqrstuvwxyz'' ! d"

function to_digits :: "nat \<Rightarrow> nat \<Rightarrow> string" where
  "to_digits b n =
     (if b < 2 \<or> n < b then [digit_char n]
      else to_digits b (n div b) @ [digit_char (n mod b)])"
  by pat_completeness auto
termination
  by (relation "measure (\<lambda>(b, n). n)") auto

declare to_digits.simps [simp del]

definition to_chars :: "int \<Rightarrow> nat \<Rightarrow> string" where
  "to_chars v b = (if v < 0 then CHR ''-'' # to_digits b (nat (- v)) else to_digits b (nat v))"

text \<open>\<^verbatim>\<open>if (buf[i] >= 'a') buf[i] -= 32;\<close>\<close>

definition upcase :: "char \<Rightarrow> char" where
  "upcase c = (if (of_char c :: nat) \<ge> of_char CHR ''a'' then char_of ((of_char c :: nat) - 32) else c)"

text \<open>
  \<^verbatim>\<open>ss << std::uppercase << std::setbase(base) << static_cast<cast_type>(val)\<close> in the
  classic locale, for the bases 8, 10 and 16 that reach it: a signed decimal, or the
  octal or upper-case hexadecimal digits of the bit pattern.
\<close>

definition ostream_int :: "nat \<Rightarrow> int64 \<Rightarrow> string" where
  "ostream_int b val =
     (if b = 10 then to_chars (sint val) 10 else map upcase (to_digits b (unat val)))"

text \<open>
  The bit loop of the branch without \<^verbatim>\<open><charconv>\<close>:
  \<^verbatim>\<open>for (unsigned i = 0; i < sizeof(unsigned_type) * CHAR_BIT; i++)\<close>; the first argument
  counts the iterations left.
\<close>

fun binary_loop :: "nat \<Rightarrow> 64 word \<Rightarrow> 64 word \<Rightarrow> bool \<Rightarrow> string \<Rightarrow> string" where
  "binary_loop 0 v mask_bit found_one stream = stream"
| "binary_loop (Suc n) v mask_bit found_one stream =
     (if v AND mask_bit \<noteq> 0
      then binary_loop n v (drop_bit 1 mask_bit) True (stream @ ''1'')
      else if found_one
      then binary_loop n v (drop_bit 1 mask_bit) found_one (stream @ ''0'')
      else binary_loop n v (drop_bit 1 mask_bit) found_one stream)"

text \<open>
  \<^verbatim>\<open>print_integer_to_stream<int64_t>(stream, val, format)\<close>. The first argument is the
  configuration macro \<^verbatim>\<open>TOML_INT_CHARCONV\<close>, which selects one of the two bodies. The
  stream is the text written so far. The 64-character buffer holds every rendering of a
  64-bit value that reaches it (at most 63 binary digits, 20 characters in decimal).
\<close>

definition print_integer_to_stream :: "bool \<Rightarrow> string \<Rightarrow> int64 \<Rightarrow> value_flags \<Rightarrow> string" where
  "print_integer_to_stream TOML_INT_CHARCONV stream val format =
     (if val = 0 then stream @ ''0''
      else
        (let base = (if format \<noteq> value_flags_none \<and> 0 \<le>s val
                     then (case format of
                             format_as_binary \<Rightarrow> 2
                           | format_as_octal \<Rightarrow> 8
                           | format_as_hexadecimal \<Rightarrow> 16
                           | _ \<Rightarrow> 10)
                     else 10)
         in if TOML_INT_CHARCONV
            then (let buf = to_chars (sint val) base;
                      buf = (if base = 16 then map upcase buf else buf)
                  in stream @ buf)
            else if format = format_as_binary
            then binary_loop 64 val (push_bit 63 1) False stream
            else stream @ ostream_int base val))"

text \<open>
  \<^verbatim>\<open>impl::fp_class\<close>, the result of \<^verbatim>\<open>impl::fpclassify\<close>; the enumerators are the case
  labels of \<^verbatim>\<open>print_floating_point_to_stream\<close>.
\<close>

datatype fp_class = ok | neg_inf | pos_inf | nan

text \<open>The lambda \<^verbatim>\<open>needs_decimal_point\<close>.\<close>

fun needs_decimal_point :: "string \<Rightarrow> bool" where
  "needs_decimal_point [] = True"
| "needs_decimal_point (c # s) =
     (if c = CHR ''.'' \<or> c = CHR ''E'' \<or> c = CHR ''e'' then False else needs_decimal_point s)"

text \<open>
  \<^verbatim>\<open>print_floating_point_to_stream(stream, val, format)\<close>. Three parts are not in the
  sources and are parameters: \<open>fpclassify\<close> is \<^verbatim>\<open>impl::fpclassify\<close>; \<open>flag_and a b\<close> is the
  truth value \<^verbatim>\<open>!!(a & b)\<close> of the flag enumeration's \<^verbatim>\<open>operator&\<close>; \<open>render val hex\<close> is the
  text the C++ standard library produces for \<open>val\<close> (\<^verbatim>\<open>std::to_chars\<close>, or the
  \<^verbatim>\<open>std::ostringstream\<close> of the branch without \<^verbatim>\<open><charconv>\<close>), in hexadecimal-float
  form when \<open>hex\<close> holds. Both bodies of the source have this one shape.
\<close>

definition print_floating_point_to_stream ::
  "(double \<Rightarrow> fp_class) \<Rightarrow> (value_flags \<Rightarrow> value_flags \<Rightarrow> bool) \<Rightarrow> (double \<Rightarrow> bool \<Rightarrow> string)
     \<Rightarrow> string \<Rightarrow> double \<Rightarrow> value_flags \<Rightarrow> string" where
  "print_floating_point_to_stream fpclassify flag_and render stream val format =
     (case fpclassify val of
        neg_inf \<Rightarrow> stream @ ''-inf''
      | pos_inf \<Rightarrow> stream @ ''inf''
      | nan \<Rightarrow> stream @ ''nan''
      | ok \<Rightarrow>
          (let str = render val (flag_and format format_as_hexadecimal);
               stream = stream @ str
           in if \<not> flag_and format format_as_hexadecimal \<and> needs_decimal_point str
              then stream @ ''.0''
              else stream))"

section \<open>Formatter\<close>

text \<open>
  Modelled from the spec: the base class \<^verbatim>\<open>impl::formatter\<close> is outside the sources. Its
  configuration and the services it gets from other parts of the library are collected
  in an environment: the indentation string and its width in columns, the two
  indentation flags, the text \<^verbatim>\<open>print_value\<close> emits for a scalar and the text
  \<^verbatim>\<open>print_string\<close> emits for a key (its quoting policy). The environment also holds the
  floating-point operations of \<^verbatim>\<open>count_inline_columns\<close>: the conversion of an
  \<^verbatim>\<open>int64_t\<close> to \<^verbatim>\<open>double\<close>, \<^verbatim>\<open>static_cast<size_t>(log10(x))\<close>, the comparisons with
  \<^verbatim>\<open>0.0\<close> and the multiplication by \<^verbatim>\<open>-1.0\<close>. A \<^verbatim>\<open>size_t\<close> is a 64-bit word: its
  arithmetic wraps around and its comparisons are unsigned.
\<close>

type_synonym size_t = "64 word"

record env =
  indent_string :: string
  indent_columns :: size_t
  indent_array_elements :: bool
  indent_sub_tables :: bool
  value_text :: "node \<Rightarrow> string"
  key_text :: "string \<Rightarrow> string"
  double_of_int64 :: "int64 \<Rightarrow> double"
  log10_size :: "double \<Rightarrow> size_t"
  fp_eq_zero :: "double \<Rightarrow> bool"
  fp_lt_zero :: "double \<Rightarrow> bool"
  fp_negate :: "double \<Rightarrow> double"

text \<open>
  The state of a \<^verbatim>\<open>default_formatter\<close>: the text of the attached stream, the
  indentation level and the naked-newline flag of the base class, and the two members
  \<^verbatim>\<open>key_path_\<close> and \<^verbatim>\<open>pending_table_separator_\<close>. The fields are named as in the source,
  without the trailing underscore.
\<close>

record formatter =
  stream :: string
  indent :: int
  naked_newline :: bool
  key_path :: "string list"
  pending_table_separator :: bool

text \<open>A newly constructed formatter: the member initialisers of the class.\<close>

definition default_formatter :: formatter where
  "default_formatter =
     \<lparr>stream = [], indent = 0, naked_newline = False, key_path = [],
      pending_table_separator = False\<rparr>"

definition line_wrap_cols :: size_t where
  "line_wrap_cols = 120"

text \<open>\<^verbatim>\<open>impl::print_to_stream(base::stream(), text)\<close>.\<close>

definition print_to_stream :: "string \<Rightarrow> formatter \<Rightarrow> formatter" where
  "print_to_stream s fmt = fmt\<lparr>stream := stream fmt @ s\<rparr>"

text \<open>
  Modelled from the spec: the primitives of the base formatter, which is outside the
  sources: attaching to and detaching from an output sink, newline emission that
  collapses consecutive blank lines unless forced, indentation emission, the
  indentation level (get, set, increase, decrease), key and scalar emission.
\<close>

definition attach :: "string \<Rightarrow> formatter \<Rightarrow> formatter" where
  "attach lhs fmt = fmt\<lparr>indent := 0, naked_newline := True, stream := lhs\<rparr>"

definition detach :: "formatter \<Rightarrow> formatter" where
  "detach fmt = fmt\<lparr>stream := []\<rparr>"

definition print_newline :: "bool \<Rightarrow> formatter \<Rightarrow> formatter" where
  "print_newline force fmt =
     (if \<not> naked_newline fmt \<or> force
      then (print_to_stream [CHR 0x0A] fmt)\<lparr>naked_newline := True\<rparr>
      else fmt)"

definition print_indent :: "env \<Rightarrow> formatter \<Rightarrow> formatter" where
  "print_indent E fmt =
     (if indent fmt > 0
      then (print_to_stream (concat (replicate (nat (indent fmt)) (indent_string E))) fmt)
             \<lparr>naked_newline := False\<rparr>
      else fmt)"

definition clear_naked_newline :: "formatter \<Rightarrow> formatter" where
  "clear_naked_newline fmt = fmt\<lparr>naked_newline := False\<rparr>"

definition increase_indent :: "formatter \<Rightarrow> formatter" where
  "increase_indent fmt = fmt\<lparr>indent := indent fmt + 1\<rparr>"

definition decrease_indent :: "formatter \<Rightarrow> formatter" where
  "decrease_indent fmt = fmt\<lparr>indent := indent fmt - 1\<rparr>"

definition print_value :: "env \<Rightarrow> node \<Rightarrow> formatter \<Rightarrow> formatter" where
  "print_value E v fmt = (print_to_stream (value_text E v) fmt)\<lparr>naked_newline := False\<rparr>"

text \<open>\<^verbatim>\<open>default_formatter::print_key_segment\<close>, which is \<^verbatim>\<open>base::print_string(str, false, true)\<close>.\<close>

definition print_key_segment :: "env \<Rightarrow> string \<Rightarrow> formatter \<Rightarrow> formatter" where
  "print_key_segment E str fmt = (print_to_stream (key_text E str) fmt)\<lparr>naked_newline := False\<rparr>"

text \<open>
  Modelled from the spec: \<^verbatim>\<open>array::is_array_of_tables\<close> is declared outside the sources.
  It is true iff the array is non-empty, homogeneous with tag table, and none of its
  table elements declares itself inline.
\<close>

definition is_array_of_tables :: "node list \<Rightarrow> bool" where
  "is_array_of_tables arr = (is_homogeneous arr table \<and> list_all (\<lambda>e. \<not> is_inline e) arr)"

text \<open>
  \<^verbatim>\<open>default_formatter::count_inline_columns\<close>. The two range-for loops carry the running
  \<open>weight\<close> and stop once it reaches \<open>line_wrap_cols\<close>. The sums are \<^verbatim>\<open>size_t\<close> sums: where
  the cast of a negative logarithm gives a word near \<open>2 ^ 64\<close> the sum wraps around.
\<close>

fun count_inline_columns :: "env \<Rightarrow> node \<Rightarrow> size_t"
  and count_table_columns :: "env \<Rightarrow> size_t \<Rightarrow> (string \<times> node) list \<Rightarrow> size_t"
  and count_array_columns :: "env \<Rightarrow> size_t \<Rightarrow> node list \<Rightarrow> size_t" where
  "count_inline_columns E (Table inl tbl) = (if tbl = [] then 2 else count_table_columns E 3 tbl)"
| "count_inline_columns E (Array arr) = (if arr = [] then 2 else count_array_columns E 3 arr)"
| "count_inline_columns E (Value_string str) = of_nat (length str) + 2"
| "count_inline_columns E (Value_int64 val) =
     (if val = 0 then 1
      else if val <s 0
      then 1 + log10_size E (double_of_int64 E (val * (- 1))) + 1
      else 0 + log10_size E (double_of_int64 E val) + 1)"
| "count_inline_columns E (Value_double val) =
     (if fp_eq_zero E val then 3
      else if fp_lt_zero E val
      then 2 + 1 + log10_size E (fp_negate E val) + 1
      else 2 + log10_size E val + 1)"
| "count_inline_columns E (Value_bool _) = 5"
| "count_inline_columns E (Value_date _) = 10"
| "count_inline_columns E (Value_time _) = 10"
| "count_inline_columns E (Value_date_time _) = 30"
| "count_table_columns E weight [] = weight"
| "count_table_columns E weight ((k, v) # tbl) =
     (let weight = weight + (of_nat (length k) + count_inline_columns E v + 2)
      in if weight \<ge> line_wrap_cols then weight else count_table_columns E weight tbl)"
| "count_array_columns E weight [] = weight"
| "count_array_columns E weight (elem # arr) =
     (let weight = weight + (count_inline_columns E elem + 2)
      in if weight \<ge> line_wrap_cols then weight else count_array_columns E weight arr)"

definition forces_multiline :: "env \<Rightarrow> node \<Rightarrow> size_t \<Rightarrow> bool" where
  "forces_multiline E node starting_column_bias =
     (count_inline_columns E node + starting_column_bias \<ge> line_wrap_cols)"

text \<open>\<^verbatim>\<open>default_formatter::print_pending_table_separator\<close>.\<close>

definition print_pending_table_separator :: "formatter \<Rightarrow> formatter" where
  "print_pending_table_separator fmt =
     (if pending_table_separator fmt
      then (print_newline True (print_newline True fmt))\<lparr>pending_table_separator := False\<rparr>
      else fmt)"

text \<open>
  \<^verbatim>\<open>default_formatter::print_key_path\<close>; the flag of the loop says that the segment is
  not the first of \<^verbatim>\<open>key_path_\<close>.
\<close>

fun print_key_path_segments :: "env \<Rightarrow> bool \<Rightarrow> string list \<Rightarrow> formatter \<Rightarrow> formatter" where
  "print_key_path_segments E later [] fmt = fmt"
| "print_key_path_segments E later (segment # segments) fmt =
     print_key_path_segments E True segments
       (print_key_segment E segment (if later then print_to_stream ''.'' fmt else fmt))"

definition print_key_path :: "env \<Rightarrow> formatter \<Rightarrow> formatter" where
  "print_key_path E fmt = clear_naked_newline (print_key_path_segments E False (key_path fmt) fmt)"

text \<open>
  \<^verbatim>\<open>default_formatter::print_inline(const table&)\<close> and
  \<^verbatim>\<open>default_formatter::print(const array&)\<close>, with their loops. \<open>print_node\<close> is the
  \<^verbatim>\<open>switch (type)\<close> that both loops end with. The table is given by its entries.
\<close>

function (sequential) print_inline :: "env \<Rightarrow> (string \<times> node) list \<Rightarrow> formatter \<Rightarrow> formatter"
  and print_inline_entries :: "env \<Rightarrow> bool \<Rightarrow> (string \<times> node) list \<Rightarrow> formatter \<Rightarrow> formatter"
  and print_array :: "env \<Rightarrow> node list \<Rightarrow> formatter \<Rightarrow> formatter"
  and print_array_elements :: "env \<Rightarrow> bool \<Rightarrow> nat \<Rightarrow> node list \<Rightarrow> formatter \<Rightarrow> formatter"
  and print_node :: "env \<Rightarrow> node \<Rightarrow> formatter \<Rightarrow> formatter" where
  "print_inline E tbl fmt =
     clear_naked_newline
       (if tbl = [] then print_to_stream ''{}'' fmt
        else print_to_stream '' }'' (print_inline_entries E False tbl (print_to_stream ''{ '' fmt)))"
| "print_inline_entries E first [] fmt = fmt"
| "print_inline_entries E first ((k, v) # tbl) fmt =
     (let fmt = (if first then print_to_stream '', '' fmt else fmt);
          fmt = print_key_segment E k fmt;
          fmt = print_to_stream '' = '' fmt;
          fmt = print_node E v fmt
      in print_inline_entries E True tbl fmt)"
| "print_array E arr fmt =
     clear_naked_newline
       (if arr = [] then print_to_stream ''[]'' fmt
        else
          (let original_indent = indent fmt;
               multiline = forces_multiline E (Array arr)
                             (indent_columns E * word_of_int (if original_indent < 0 then 0 else original_indent));
               fmt = print_to_stream ''['' fmt;
               fmt = (if multiline
                      then (let fmt = (if original_indent < 0 then fmt\<lparr>indent := 0\<rparr> else fmt)
                            in if indent_array_elements E then increase_indent fmt else fmt)
                      else print_to_stream '' '' fmt);
               fmt = print_array_elements E multiline 0 arr fmt;
               fmt = (if multiline
                      then print_indent E (print_newline True (fmt\<lparr>indent := original_indent\<rparr>))
                      else print_to_stream '' '' fmt)
           in print_to_stream '']'' fmt))"
| "print_array_elements E multiline i [] fmt = fmt"
| "print_array_elements E multiline i (v # arr) fmt =
     (let fmt = (if i > 0
                 then (let fmt = print_to_stream '','' fmt
                       in if \<not> multiline then print_to_stream '' '' fmt else fmt)
                 else fmt);
          fmt = (if multiline then print_indent E (print_newline True fmt) else fmt);
          fmt = print_node E v fmt
      in print_array_elements E multiline (Suc i) arr fmt)"
| "print_node E v fmt =
     (case v of
        Table inl tbl \<Rightarrow> print_inline E tbl fmt
      | Array arr \<Rightarrow> print_array E arr fmt
      | _ \<Rightarrow> print_value E v fmt)"
  by pat_completeness auto
termination
  by (relation "inv_image (less_than <*lex*> less_than)
        (\<lambda>x. case x of
           Inl (Inl (E, tbl, fmt)) \<Rightarrow> (size (Table False tbl), 2::nat)
         | Inl (Inr (E, first, tbl, fmt)) \<Rightarrow> (size (Table False tbl), 1)
         | Inr (Inl (E, arr, fmt)) \<Rightarrow> (size (Array arr), 2)
         | Inr (Inr (Inl (E, multiline, i, arr, fmt))) \<Rightarrow> (size (Array arr), 1)
         | Inr (Inr (Inr (E, v, fmt))) \<Rightarrow> (size v, 3))")
     auto

text \<open>The lambda \<^verbatim>\<open>is_non_inline_array_of_tables\<close> of \<^verbatim>\<open>print(const table&)\<close>.\<close>

definition is_non_inline_array_of_tables :: "node \<Rightarrow> bool" where
  "is_non_inline_array_of_tables nde =
     (case as_array nde of
        None \<Rightarrow> False
      | Some arr \<Rightarrow> is_array_of_tables arr \<and> \<not> is_inline (arr ! 0))"

text \<open>
  The first loop of \<^verbatim>\<open>print(const table&)\<close>: values, arrays, and inline tables and table
  arrays.
\<close>

fun print_table_values :: "env \<Rightarrow> (string \<times> node) list \<Rightarrow> formatter \<Rightarrow> formatter" where
  "print_table_values E [] fmt = fmt"
| "print_table_values E ((k, v) # tbl) fmt =
     (if (type v = table \<and> \<not> is_inline v) \<or> (type v = array \<and> is_non_inline_array_of_tables v)
      then print_table_values E tbl fmt
      else
        (let fmt = fmt\<lparr>pending_table_separator := True\<rparr>;
             fmt = print_newline False fmt;
             fmt = print_indent E fmt;
             fmt = print_key_segment E k fmt;
             fmt = print_to_stream '' = '' fmt;
             fmt = print_node E v fmt
         in print_table_values E tbl fmt))"

text \<open>
  The loop over the children of a sub-table, on the counters (\<^verbatim>\<open>child_value_count\<close>,
  \<^verbatim>\<open>child_table_count\<close>, \<^verbatim>\<open>child_table_array_count\<close>), and the flag \<^verbatim>\<open>skip_self\<close> computed
  from them.
\<close>

fun count_children :: "(string \<times> node) list \<Rightarrow> nat \<times> nat \<times> nat \<Rightarrow> nat \<times> nat \<times> nat" where
  "count_children [] counts = counts"
| "count_children ((child_k, child_v) # child_tbl)
       (child_value_count, child_table_count, child_table_array_count) =
     count_children child_tbl
       (case type child_v of
          table \<Rightarrow>
            if is_inline child_v
            then (child_value_count + 1, child_table_count, child_table_array_count)
            else (child_value_count, child_table_count + 1, child_table_array_count)
        | array \<Rightarrow>
            if is_non_inline_array_of_tables child_v
            then (child_value_count, child_table_count, child_table_array_count + 1)
            else (child_value_count + 1, child_table_count, child_table_array_count)
        | _ \<Rightarrow> (child_value_count + 1, child_table_count, child_table_array_count))"

definition skip_self :: "(string \<times> node) list \<Rightarrow> bool" where
  "skip_self child_tbl =
     (case count_children child_tbl (0, 0, 0) of
        (child_value_count, child_table_count, child_table_array_count) \<Rightarrow>
          child_value_count = 0 \<and> (child_table_count > 0 \<or> child_table_array_count > 0))"

text \<open>
  The header lines of \<^verbatim>\<open>print(const table&)\<close>: the statements of the second loop under
  \<^verbatim>\<open>if (!skip_self)\<close>, which write \<^verbatim>\<open>[key.path]\<close>, and the statements of the third loop before
  the recursive call, which write \<^verbatim>\<open>[[key.path]]\<close>.
\<close>

definition print_table_header :: "env \<Rightarrow> formatter \<Rightarrow> formatter" where
  "print_table_header E fmt =
     (let fmt = print_pending_table_separator fmt;
          fmt = (if indent_sub_tables E then increase_indent fmt else fmt);
          fmt = print_indent E fmt;
          fmt = print_to_stream ''['' fmt;
          fmt = print_key_path E fmt;
          fmt = print_to_stream '']'' fmt
      in fmt\<lparr>pending_table_separator := True\<rparr>)"

definition print_table_array_header :: "env \<Rightarrow> formatter \<Rightarrow> formatter" where
  "print_table_array_header E fmt =
     (let fmt = print_pending_table_separator fmt;
          fmt = print_indent E fmt;
          fmt = print_to_stream ''[['' fmt;
          fmt = print_key_path E fmt;
          fmt = print_to_stream '']]'' fmt
      in fmt\<lparr>pending_table_separator := True\<rparr>)"

text \<open>\<^verbatim>\<open>key_path_.push_back(k)\<close> and \<^verbatim>\<open>key_path_.pop_back()\<close>.\<close>

definition push_key :: "string \<Rightarrow> formatter \<Rightarrow> formatter" where
  "push_key k fmt = fmt\<lparr>key_path := key_path fmt @ [k]\<rparr>"

definition pop_key :: "formatter \<Rightarrow> formatter" where
  "pop_key fmt = fmt\<lparr>key_path := butlast (key_path fmt)\<rparr>"

text \<open>
  \<^verbatim>\<open>default_formatter::print(const table&)\<close>: the three loops, in order. \<open>print_sub_table\<close>
  is the body of the second loop for an entry \<open>k\<close> whose value is the non-inline table
  \<open>child_tbl\<close>; \<open>print_table_array_elements\<close> is the inner loop of the third. An element
  of an array that passed \<open>is_non_inline_array_of_tables\<close> is a table; the cast of any
  other node would be undefined and the loop passes over it.
\<close>

function (sequential) print_table :: "env \<Rightarrow> (string \<times> node) list \<Rightarrow> formatter \<Rightarrow> formatter"
  and print_table_tables :: "env \<Rightarrow> (string \<times> node) list \<Rightarrow> formatter \<Rightarrow> formatter"
  and print_sub_table :: "env \<Rightarrow> string \<Rightarrow> (string \<times> node) list \<Rightarrow> formatter \<Rightarrow> formatter"
  and print_table_arrays :: "env \<Rightarrow> (string \<times> node) list \<Rightarrow> formatter \<Rightarrow> formatter"
  and print_table_array_elements :: "env \<Rightarrow> node list \<Rightarrow> formatter \<Rightarrow> formatter" where
  "print_table E tbl fmt =
     print_table_arrays E tbl (print_table_tables E tbl (print_table_values E tbl fmt))"
| "print_table_tables E [] fmt = fmt"
| "print_table_tables E (kv # tbl) fmt =
     (case snd kv of
        Table inl child_tbl \<Rightarrow>
          if inl then print_table_tables E tbl fmt
          else print_table_tables E tbl (print_sub_table E (fst kv) child_tbl fmt)
      | _ \<Rightarrow> print_table_tables E tbl fmt)"
| "print_sub_table E k child_tbl fmt =
     (let skip = skip_self child_tbl;
          fmt = push_key k fmt;
          fmt = (if \<not> skip then print_table_header E fmt else fmt);
          fmt = print_table E child_tbl fmt;
          fmt = pop_key fmt
      in if \<not> skip \<and> indent_sub_tables E then decrease_indent fmt else fmt)"
| "print_table_arrays E [] fmt = fmt"
| "print_table_arrays E (kv # tbl) fmt =
     (case snd kv of
        Array arr \<Rightarrow>
          if \<not> is_non_inline_array_of_tables (snd kv) then print_table_arrays E tbl fmt
          else
            (let fmt = (if indent_sub_tables E then increase_indent fmt else fmt);
                 fmt = push_key (fst kv) fmt;
                 fmt = print_table_array_elements E arr fmt;
                 fmt = pop_key fmt;
                 fmt = (if indent_sub_tables E then decrease_indent fmt else fmt)
             in print_table_arrays E tbl fmt)
      | _ \<Rightarrow> print_table_arrays E tbl fmt)"
| "print_table_array_elements E [] fmt = fmt"
| "print_table_array_elements E (elem # arr) fmt =
     (case elem of
        Table inl elem_tbl \<Rightarrow>
          print_table_array_elements E arr (print_table E elem_tbl (print_table_array_header E fmt))
      | _ \<Rightarrow> print_table_array_elements E arr fmt)"
  by pat_completeness auto
termination
  by (relation "inv_image (less_than <*lex*> less_than)
        (\<lambda>x. case x of
           Inl (Inl (E, tbl, fmt)) \<Rightarrow> (size (Table False tbl), 3::nat)
         | Inl (Inr (E, tbl, fmt)) \<Rightarrow> (size (Table False tbl), 1)
         | Inr (Inl (E, k, tbl, fmt)) \<Rightarrow> (size (Table False tbl), 4)
         | Inr (Inr (Inl (E, tbl, fmt))) \<Rightarrow> (size (Table False tbl), 1)
         | Inr (Inr (Inr (E, arr, fmt))) \<Rightarrow> (size (Array arr), 1))")
     auto

text \<open>
  What a formatter is bound to: a node, or a failed parse result with its diagnostic
  text.
\<close>

datatype bound_object = Source node | Failed_parse_result string

text \<open>
  \<^verbatim>\<open>default_formatter::print()\<close>. Modelled from the spec: \<^verbatim>\<open>dump_failed_parse_result\<close> of
  the base formatter writes the diagnostic text of a failed parse result verbatim.
\<close>

definition print :: "env \<Rightarrow> bound_object \<Rightarrow> formatter \<Rightarrow> formatter" where
  "print E src fmt =
     (case src of
        Failed_parse_result description \<Rightarrow> print_to_stream description fmt
      | Source (Table inl tbl) \<Rightarrow>
          if inl then print_inline E tbl fmt else print_table E tbl (decrease_indent fmt)
      | Source (Array arr) \<Rightarrow> print_array E arr fmt
      | Source v \<Rightarrow> print_value E v fmt)"

text \<open>
  \<^verbatim>\<open>operator<<(std::ostream& lhs, default_formatter& rhs)\<close>: the text of the stream
  afterwards, and the formatter afterwards.
\<close>

definition operator_shift_left :: "env \<Rightarrow> bound_object \<Rightarrow> string \<Rightarrow> formatter \<Rightarrow> string \<times> formatter" where
  "operator_shift_left E src lhs rhs =
     (let rhs = attach lhs rhs;
          rhs = rhs\<lparr>key_path := []\<rparr>;
          rhs = print E src rhs;
          lhs = stream rhs;
          rhs = detach rhs
      in (lhs, rhs))"

text \<open>
  An environment for the examples: four spaces of indentation, both indentation flags
  set, keys written as they are, booleans written as \<^verbatim>\<open>true\<close> and \<^verbatim>\<open>false\<close>.
\<close>

definition example_env :: env where
  "example_env =
     \<lparr>indent_string = ''    '', indent_columns = 4, indent_array_elements = True,
      indent_sub_tables = True,
      value_text = (\<lambda>v. case v of Value_bool b \<Rightarrow> if b then ''true'' else ''false'' | _ \<Rightarrow> ''?''),
      key_text = (\<lambda>k. k), double_of_int64 = (\<lambda>_. 0), log10_size = (\<lambda>_. 0),
      fp_eq_zero = (\<lambda>_. True), fp_lt_zero = (\<lambda>_. False), fp_negate = (\<lambda>x. x)\<rparr>"

text \<open>
  The dotted key path in the words of the specification: the segments joined with
  \<^verbatim>\<open>.\<close>, each written as a key.
\<close>

fun dotted_key_path :: "env \<Rightarrow> string list \<Rightarrow> string" where
  "dotted_key_path E [] = []"
| "dotted_key_path E [segment] = key_text E segment"
| "dotted_key_path E (segment # segments) = key_text E segment @ ''.'' @ dotted_key_path E segments"

text \<open>
  A value-like child in the words of the specification: a scalar, an inline table, or
  an array that is not an array of tables.
\<close>

definition value_like :: "node \<Rightarrow> bool" where
  "value_like v =
     (case type v of
        table \<Rightarrow> is_inline v
      | array \<Rightarrow> \<not> is_non_inline_array_of_tables v
      | _ \<Rightarrow> True)"

section \<open>The in-place flatten computes the flattened sequence\<close>

declare flatten_loop.simps [simp del]

lemma length_flatten_spec: "length (flatten_spec xs) = total_leaf_count xs"
  by (induction xs rule: flatten_spec.induct) auto

lemma flatten_child_spec:
  "snd st + total_leaf_count child \<le> length (fst st) \<Longrightarrow>
   flatten_child child st =
     Some (take (snd st) (fst st) @ map Some (flatten_spec child)
             @ drop (snd st + total_leaf_count child) (fst st),
           snd st + total_leaf_count child)"
proof (induction child st rule: flatten_child.induct)
  case (1 st)
  then show ?case by (cases st) simp
next
  case (2 arr child st)
  obtain es d where st: "st = (es, d)" by (cases st)
  show ?case
  proof (cases "arr = []")
    case True
    with 2 st show ?thesis by simp
  next
    case False
    let ?la = "total_leaf_count arr"
    let ?es1 = "take d es @ map Some (flatten_spec arr) @ drop (d + ?la) es"
    from "2.prems" st have le: "d + ?la + total_leaf_count child \<le> length es" by simp
    have a: "flatten_child arr st = Some (?es1, d + ?la)"
      using "2.IH"(1)[OF False] le st by simp
    have len: "length ?es1 = length es" using le by (simp add: length_flatten_spec)
    have t: "take (d + ?la) ?es1 = take d es @ map Some (flatten_spec arr)"
      using le by (simp add: length_flatten_spec)
    have dr: "drop (d + ?la + total_leaf_count child) ?es1 = drop (d + ?la + total_leaf_count child) es"
      using le by (simp add: length_flatten_spec add.commute)
    have b: "flatten_child child (?es1, d + ?la) =
        Some (take (d + ?la) ?es1 @ map Some (flatten_spec child)
               @ drop (d + ?la + total_leaf_count child) ?es1, d + ?la + total_leaf_count child)"
      using "2.IH"(2)[OF False a] le len by simp
    show ?thesis using False a b t dr st by (simp add: add.assoc)
  qed
qed (simp_all add: take_Suc_conv_app_nth)

lemma move_slot_shift:
  assumes "length A = idx" "count \<ge> 1"
  shows "move_slot (idx + length B1 + count) (idx + length B1)
           (A @ (B1 @ [b]) @ replicate count None @ B2) =
         Some (A @ B1 @ replicate count None @ (b # B2))"
proof -
  let ?es = "A @ (B1 @ [b]) @ replicate count None @ B2"
  obtain c where c: "count = Suc c" using assms(2) by (cases count) auto
  have es: "?es = (A @ B1) @ b # (replicate c None @ None # B2)"
    by (simp add: c replicate_append_same)
  have l: "length (A @ B1) = idx + length B1" using assms by simp
  have "?es ! (idx + length B1) = b"
    unfolding es using l by (metis nth_append_length)
  moreover have "?es[idx + length B1 + count := b] = (A @ B1) @ b # (replicate c None @ b # B2)"
    unfolding es using l
    by (simp add: list_update_append c)
  moreover have "((A @ B1) @ b # (replicate c None @ b # B2))[idx + length B1 := None]
      = (A @ B1) @ None # (replicate c None @ b # B2)"
    using l by (metis list_update_length)
  ultimately show ?thesis
    using assms by (simp add: move_slot_def c replicate_append_same)
qed

lemma preinsertion_shift_spec:
  assumes "length A = idx" "count \<ge> 1"
  shows "preinsertion_shift (idx + length B1) idx (idx + length B1 + count - 1)
           (A @ B1 @ replicate count None @ B2) =
         Some (A @ replicate count None @ B1 @ B2)"
proof (induction B1 arbitrary: B2 rule: rev_induct)
  case Nil
  show ?case by (cases idx) simp_all
next
  case (snoc b B1)
  have "preinsertion_shift (idx + length (B1 @ [b])) idx (idx + length (B1 @ [b]) + count - 1)
           (A @ (B1 @ [b]) @ replicate count None @ B2)
      = preinsertion_shift (idx + length B1) idx (idx + length B1 + count - 1)
           (A @ B1 @ replicate count None @ (b # B2))"
    using move_slot_shift[OF assms, of B1 b B2] assms(2) by simp
  with snoc.IH[of "b # B2"] show ?case by simp
qed

lemma preinsertion_resize_spec:
  assumes "idx \<le> length es" "count \<ge> 1"
  shows "preinsertion_resize idx count es = Some (take idx es @ replicate count None @ drop idx es)"
proof (cases "idx = length es")
  case True
  with assms show ?thesis by (simp add: preinsertion_resize_def)
next
  case False
  have l: "length (take idx es) = idx" using assms by simp
  have "preinsertion_shift (idx + length (drop idx es)) idx (idx + length (drop idx es) + count - 1)
           (take idx es @ drop idx es @ replicate count None @ []) =
         Some (take idx es @ replicate count None @ drop idx es @ [])"
    by (rule preinsertion_shift_spec[OF l assms(2)])
  moreover have "take idx es @ drop idx es @ replicate count None = es @ replicate count None"
    by (metis append_assoc append_take_drop_id)
  ultimately show ?thesis using False assms by (simp add: preinsertion_resize_def Let_def)
qed

lemma flatten_scan_spec:
  "es = map Some xs @ ys \<Longrightarrow> n = length xs \<Longrightarrow>
   \<exists>sz'. flatten_scan n (es, req, sz) =
     Some (map Some (filter keep xs) @ ys,
           req \<or> (\<exists>x \<in> set xs. \<exists>arr. as_array x = Some arr \<and> total_leaf_count arr > 0), sz')"
proof (induction xs arbitrary: es n ys req sz rule: rev_induct)
  case Nil
  then show ?case by simp
next
  case (snoc x xs)
  have n: "n = Suc (length xs)" using snoc.prems by simp
  have nth: "es ! length xs = Some x" "length xs < length es"
    using snoc.prems by (simp_all add: nth_append)
  have app: "es = map Some xs @ (Some x # ys)" using snoc.prems by simp
  show ?case
  proof (cases "as_array x")
    case None
    from snoc.IH[OF app refl, of req sz] obtain sz' where
      "flatten_scan (length xs) (es, req, sz) =
         Some (map Some (filter keep xs) @ Some x # ys,
           req \<or> (\<exists>x \<in> set xs. \<exists>arr. as_array x = Some arr \<and> total_leaf_count arr > 0), sz')"
      by blast
    moreover have "keep x" using None by (simp add: keep_def)
    ultimately show ?thesis using None nth
      unfolding n by simp
  next
    case (Some arr)
    show ?thesis
    proof (cases "total_leaf_count arr > 0")
      case True
      from snoc.IH[OF app refl, of True] obtain sz' where
        "flatten_scan (length xs) (es, True, sz - 1 + total_leaf_count arr) =
         Some (map Some (filter keep xs) @ Some x # ys, True, sz')"
        by auto
      moreover have "keep x" using Some True by (simp add: keep_def)
      ultimately show ?thesis using Some True nth
        unfolding n by (auto simp: Let_def)
    next
      case False
      have er: "erase (length xs) es = map Some xs @ ys"
        unfolding app by (simp add: erase_def)
      from snoc.IH[OF er refl, of req "sz - 1"] obtain sz' where
        "flatten_scan (length xs) (erase (length xs) es, req, sz - 1) =
         Some (map Some (filter keep xs) @ ys,
           req \<or> (\<exists>x \<in> set xs. \<exists>arr. as_array x = Some arr \<and> total_leaf_count arr > 0), sz')"
        by blast
      moreover have "\<not> keep x" using Some False by (simp add: keep_def)
      ultimately show ?thesis using Some False nth
        unfolding n by (auto simp: Let_def)
    qed
  qed
qed

lemma flatten_spec_zero: "total_leaf_count xs = 0 \<Longrightarrow> flatten_spec xs = []"
  using length_flatten_spec[of xs] by simp

lemma flatten_spec_filter_keep: "flatten_spec (filter keep xs) = flatten_spec xs"
  by (induction xs rule: flatten_spec.induct) (simp_all add: keep_def flatten_spec_zero)

lemma flatten_spec_no_arrays:
  "\<forall>x \<in> set xs. as_array x = None \<Longrightarrow> flatten_spec xs = xs"
  by (induction xs rule: flatten_spec.induct) auto

lemma those_map_Some: "those (map Some xs) = Some xs"
  by (induction xs) auto

lemma as_array_Some: "as_array n = Some arr \<longleftrightarrow> n = Array arr"
  by (cases n) auto

lemma flatten_spec_leaf: "as_array n = None \<Longrightarrow> flatten_spec (n # xs) = n # flatten_spec xs"
  by (cases n) auto

lemma total_leaf_count_leaf: "as_array n = None \<Longrightarrow> total_leaf_count (n # xs) = 1 + total_leaf_count xs"
  by (cases n) auto

lemma flatten_step_leaf:
  assumes "as_array n = None"
  shows "flatten_step (map Some pre @ Some n # rs, length pre) =
           Some (map Some pre @ Some n # rs, Suc (length pre))"
proof -
  have "(map Some pre @ Some n # rs) ! length pre = Some n"
    by (metis length_map nth_append_length)
  with assms show ?thesis by (simp add: flatten_step_def)
qed

lemma flatten_step_array:
  assumes "total_leaf_count arr > 0"
  shows "flatten_step (map Some pre @ Some (Array arr) # rs, length pre) =
           Some (map Some pre @ map Some (flatten_spec arr) @ rs, length pre + total_leaf_count arr)"
proof -
  let ?lc = "total_leaf_count arr"
  let ?es = "map Some pre @ Some (Array arr) # rs"
  let ?es1 = "map Some pre @ None # rs"
  let ?es2 = "map Some pre @ replicate ?lc None @ rs"
  have nth: "?es ! length pre = Some (Array arr)"
    by (metis length_map nth_append_length)
  have upd: "?es[length pre := None] = ?es1"
    by (metis length_map list_update_length)
  have r: "(if ?lc > 1 then preinsertion_resize (length pre + 1) (?lc - 1) ?es1 else Some ?es1) = Some ?es2"
  proof (cases "?lc > 1")
    case True
    then obtain c where c: "?lc = Suc c" "c \<ge> 1" by (cases ?lc) auto
    have "preinsertion_resize (length pre + 1) c ?es1
        = Some (take (length pre + 1) ?es1 @ replicate c None @ drop (length pre + 1) ?es1)"
      by (rule preinsertion_resize_spec) (use c in simp_all)
    then show ?thesis using True c by simp
  next
    case False
    with assms have "?lc = 1" by simp
    then show ?thesis by simp
  qed
  have "flatten_child arr (?es2, length pre) =
     Some (take (snd (?es2, length pre)) (fst (?es2, length pre)) @ map Some (flatten_spec arr)
             @ drop (snd (?es2, length pre) + ?lc) (fst (?es2, length pre)),
           snd (?es2, length pre) + ?lc)"
    by (rule flatten_child_spec) simp
  then have fc: "flatten_child arr (?es2, length pre) =
     Some (map Some pre @ map Some (flatten_spec arr) @ rs, length pre + ?lc)"
    by simp
  show ?thesis
    unfolding flatten_step_def using nth upd r fc by (simp add: Let_def)
qed

lemma flatten_loop_spec:
  "\<forall>x \<in> set rest. keep x \<Longrightarrow>
   flatten_loop (map Some pre @ map Some rest, length pre) = Some (map Some (pre @ flatten_spec rest))"
proof (induction rest arbitrary: pre)
  case Nil
  show ?case by (simp add: flatten_loop.simps)
next
  case (Cons n rest)
  have lt: "length pre < length (map Some pre @ map Some (n # rest))" by simp
  show ?case
  proof (cases "as_array n")
    case None
    have "flatten_loop (map Some pre @ map Some (n # rest), length pre)
        = flatten_loop (map Some (pre @ [n]) @ map Some rest, length (pre @ [n]))"
      using flatten_step_leaf[OF None, of pre "map Some rest"]
      by (subst flatten_loop.simps) simp
    also have "\<dots> = Some (map Some ((pre @ [n]) @ flatten_spec rest))"
      using Cons.prems by (intro Cons.IH) simp
    finally show ?thesis using None by (simp add: flatten_spec_leaf)
  next
    case (Some arr)
    then have n: "n = Array arr" by (simp add: as_array_Some)
    have pos: "total_leaf_count arr > 0" using Cons.prems Some by (simp add: keep_def)
    have "flatten_loop (map Some pre @ map Some (n # rest), length pre)
        = flatten_loop (map Some (pre @ flatten_spec arr) @ map Some rest, length (pre @ flatten_spec arr))"
      using flatten_step_array[OF pos, of pre "map Some rest"]
      by (subst flatten_loop.simps) (simp add: n length_flatten_spec)
    also have "\<dots> = Some (map Some ((pre @ flatten_spec arr) @ flatten_spec rest))"
      using Cons.prems by (intro Cons.IH) simp
    finally show ?thesis by (simp add: n)
  qed
qed

lemma flatten_refines: "flatten xs = Some (flatten_spec xs)"
proof (cases "xs = []")
  case True
  then show ?thesis by (simp add: flatten_def)
next
  case False
  let ?req = "\<exists>x \<in> set xs. \<exists>arr. as_array x = Some arr \<and> total_leaf_count arr > 0"
  from flatten_scan_spec[of "map Some xs" xs "[]" "length xs" False "length xs"]
  obtain sz' where scan: "flatten_scan (length xs) (map Some xs, False, length xs) =
     Some (map Some (filter keep xs), ?req, sz')"
    by auto
  show ?thesis
  proof (cases ?req)
    case True
    have "flatten_loop (map Some [] @ map Some (filter keep xs), length ([]::node list))
       = Some (map Some ([] @ flatten_spec (filter keep xs)))"
      by (rule flatten_loop_spec) simp
    then have "flatten_loop (map Some (filter keep xs), 0) = Some (map Some (flatten_spec xs))"
      by (simp add: flatten_spec_filter_keep)
    with scan True False show ?thesis
      by (simp add: flatten_def those_map_Some)
  next
    case False
    then have "\<forall>x \<in> set (filter keep xs). as_array x = None"
      by (auto simp: keep_def split: option.splits)
    then have "flatten_spec (filter keep xs) = filter keep xs"
      by (rule flatten_spec_no_arrays)
    then have "filter keep xs = flatten_spec xs" by (simp add: flatten_spec_filter_keep)
    with scan False \<open>xs \<noteq> []\<close> show ?thesis
      by (simp add: flatten_def those_map_Some)
  qed
qed

section \<open>Properties of the homogeneity tests\<close>

lemma all_of_type_iff: "all_of_type t xs \<longleftrightarrow> (\<forall>x \<in> set xs. type x = t)"
  by (induction xs) auto

text \<open>
  Claim C2, as amended: \<^verbatim>\<open>is_homogeneous\<close> on a single-element array is true exactly when
  the tag argument is \<^verbatim>\<open>none\<close> or is the element's own tag; on the empty array it is
  false for every tag argument.
\<close>

theorem is_homogeneous_single_or_empty:
  "(is_homogeneous [x] ntype \<longleftrightarrow> ntype = none \<or> ntype = type x) \<and> is_homogeneous [] ntype = False"
  by (auto simp: is_homogeneous_def)

theorem is_homogeneous_single_or_empty_witness:
  "is_homogeneous [Value_bool True] none \<and> is_homogeneous [Value_bool True] boolean
   \<and> is_homogeneous [] boolean = False"
  using is_homogeneous_single_or_empty[of "Value_bool True" none]
        is_homogeneous_single_or_empty[of "Value_bool True" boolean]
  by simp

text \<open>
  Claim C2 as stated fails: a single string element tested against the tag
  \<^verbatim>\<open>integer\<close> is not homogeneous.
\<close>

theorem is_homogeneous_single_counterexample:
  "is_homogeneous [Value_string ''a''] integer = False"
  by (simp add: is_homogeneous_def)

lemma first_mismatch_loop_spec:
  "first_mismatch_loop t k xs fm =
     (if \<forall>x \<in> set xs. type x = t then (True, fm)
      else (False, Some (k + length (takeWhile (\<lambda>x. type x = t) xs))))"
  by (induction xs arbitrary: k) auto

lemma takeWhile_first_mismatch:
  assumes "\<not> (\<forall>x \<in> set xs. P x)"
  shows "length (takeWhile P xs) < length xs"
    and "\<not> P (xs ! length (takeWhile P xs))"
    and "\<forall>j < length (takeWhile P xs). P (xs ! j)"
proof -
  show lt: "length (takeWhile P xs) < length xs"
    using assms by (induction xs) auto
  show "\<not> P (xs ! length (takeWhile P xs))"
    using lt by (rule nth_length_takeWhile)
  show "\<forall>j < length (takeWhile P xs). P (xs ! j)"
  proof (intro allI impI)
    fix j assume j: "j < length (takeWhile P xs)"
    then have "takeWhile P xs ! j = xs ! j" by (rule takeWhile_nth)
    moreover have "takeWhile P xs ! j \<in> set (takeWhile P xs)" using j by (rule nth_mem)
    ultimately show "P (xs ! j)" by (metis set_takeWhileD)
  qed
qed

lemma array_is_homogeneous_loop:
  "elements \<noteq> [] \<Longrightarrow>
   array_is_homogeneous elements ntype fm =
     first_mismatch_loop (if ntype = none then type (hd elements) else ntype) 0 elements fm"
  by (cases elements) (simp_all add: array_is_homogeneous_def)

text \<open>
  Claim C9: the overload with the \<^verbatim>\<open>first_nonmatch\<close> out-parameter returns false and sets
  the out-parameter to null on the empty array; on a non-empty array it returns true and
  leaves the out-parameter as it was when every element carries the tested tag (the
  first element's tag when the argument is \<^verbatim>\<open>none\<close>), and otherwise returns false with the
  out-parameter pointing at the leftmost element whose tag differs.
\<close>

theorem array_is_homogeneous_first_nonmatch:
  "array_is_homogeneous [] ntype fm = (False, None) \<and>
   (elements \<noteq> [] \<longrightarrow>
      (let t = (if ntype = none then type (hd elements) else ntype) in
         ((\<forall>x \<in> set elements. type x = t) \<longrightarrow> array_is_homogeneous elements ntype fm = (True, fm)) \<and>
         (\<not> (\<forall>x \<in> set elements. type x = t) \<longrightarrow>
            (\<exists>i < length elements.
               array_is_homogeneous elements ntype fm = (False, Some i) \<and>
               type (elements ! i) \<noteq> t \<and> (\<forall>j < i. type (elements ! j) = t)))))"
proof (intro conjI impI)
  show "array_is_homogeneous [] ntype fm = (False, None)"
    by (simp add: array_is_homogeneous_def)
next
  assume ne: "elements \<noteq> []"
  define t where "t = (if ntype = none then type (hd elements) else ntype)"
  have r: "array_is_homogeneous elements ntype fm = first_mismatch_loop t 0 elements fm"
    unfolding t_def using ne by (rule array_is_homogeneous_loop)
  have a: "array_is_homogeneous elements ntype fm = (True, fm)"
    if "\<forall>x \<in> set elements. type x = t"
    using that by (simp add: r first_mismatch_loop_spec)
  have b: "\<exists>i < length elements.
               array_is_homogeneous elements ntype fm = (False, Some i) \<and>
               type (elements ! i) \<noteq> t \<and> (\<forall>j < i. type (elements ! j) = t)"
    if n: "\<not> (\<forall>x \<in> set elements. type x = t)"
  proof -
    let ?i = "length (takeWhile (\<lambda>x. type x = t) elements)"
    have "array_is_homogeneous elements ntype fm = (False, Some ?i)"
      using n by (simp add: r first_mismatch_loop_spec)
    with takeWhile_first_mismatch[of elements "\<lambda>x. type x = t", OF n]
    show ?thesis by (intro exI[of _ ?i] conjI)
  qed
  show "let t = (if ntype = none then type (hd elements) else ntype) in
         ((\<forall>x \<in> set elements. type x = t) \<longrightarrow> array_is_homogeneous elements ntype fm = (True, fm)) \<and>
         (\<not> (\<forall>x \<in> set elements. type x = t) \<longrightarrow>
            (\<exists>i < length elements.
               array_is_homogeneous elements ntype fm = (False, Some i) \<and>
               type (elements ! i) \<noteq> t \<and> (\<forall>j < i. type (elements ! j) = t)))"
    unfolding Let_def t_def[symmetric] using a b by (intro conjI impI)
qed

theorem array_is_homogeneous_first_nonmatch_witness:
  "array_is_homogeneous [] integer (Some 7) = (False, None) \<and>
   array_is_homogeneous [Value_bool True, Value_bool False] none (Some 7) = (True, Some 7) \<and>
   (\<exists>i. array_is_homogeneous [Value_bool True, Value_time \<lparr>hour = 1, minute = 2, second = 3, nanosecond = 0\<rparr>, Value_int64 1] none None
                 = (False, Some i) \<and>
        type ([Value_bool True, Value_time \<lparr>hour = 1, minute = 2, second = 3, nanosecond = 0\<rparr>, Value_int64 1] ! i) \<noteq> boolean)"
proof -
  have a: "array_is_homogeneous [Value_bool True, Value_bool False] none (Some 7) = (True, Some 7)"
    using array_is_homogeneous_first_nonmatch[where ntype = none and fm = "Some 7"
            and elements = "[Value_bool True, Value_bool False]"]
    by (simp add: Let_def)
  have b: "\<exists>i < length [Value_bool True, Value_time \<lparr>hour = 1, minute = 2, second = 3, nanosecond = 0\<rparr>, Value_int64 1].
             array_is_homogeneous [Value_bool True, Value_time \<lparr>hour = 1, minute = 2, second = 3, nanosecond = 0\<rparr>, Value_int64 1] none None
                 = (False, Some i) \<and>
             type ([Value_bool True, Value_time \<lparr>hour = 1, minute = 2, second = 3, nanosecond = 0\<rparr>, Value_int64 1] ! i) \<noteq> boolean \<and>
             (\<forall>j < i. type ([Value_bool True, Value_time \<lparr>hour = 1, minute = 2, second = 3, nanosecond = 0\<rparr>, Value_int64 1] ! j) = boolean)"
    using array_is_homogeneous_first_nonmatch[where ntype = none and fm = None
            and elements = "[Value_bool True, Value_time \<lparr>hour = 1, minute = 2, second = 3, nanosecond = 0\<rparr>, Value_int64 1]"]
    by (simp add: Let_def del: length_Cons nth_Cons_Suc nth_Cons_0 nth_Cons_numeral)
  have c: "array_is_homogeneous [] integer (Some 7) = (False, None)"
    using array_is_homogeneous_first_nonmatch[where ntype = integer and fm = "Some 7"
            and elements = "[]"] by simp
  from b obtain i where
      i1: "array_is_homogeneous [Value_bool True, Value_time \<lparr>hour = 1, minute = 2, second = 3, nanosecond = 0\<rparr>, Value_int64 1] none None
             = (False, Some i)"
      and i2: "type ([Value_bool True, Value_time \<lparr>hour = 1, minute = 2, second = 3, nanosecond = 0\<rparr>, Value_int64 1] ! i) \<noteq> boolean"
    by (elim exE conjE)
  show ?thesis
    by (intro conjI exI[of _ i]) (rule c a i1 i2)+
qed

section \<open>Properties of flatten\<close>

text \<open>
  Claim C4: \<^verbatim>\<open>flatten\<close> returns, and the number of elements of the flattened array is
  \<^verbatim>\<open>total_leaf_count\<close> of the array before; a nested array counts its own leaves, any
  other element counts as one and an empty nested array as none.
\<close>

theorem total_leaf_count_is_flatten_size:
  "(\<exists>r. flatten A = Some r \<and> length r = total_leaf_count A) \<and>
   total_leaf_count (Array ys # xs) = total_leaf_count ys + total_leaf_count xs \<and>
   (as_array x = None \<longrightarrow> total_leaf_count (x # xs) = 1 + total_leaf_count xs) \<and>
   total_leaf_count (Array [] # xs) = total_leaf_count xs"
  by (simp add: flatten_refines length_flatten_spec total_leaf_count_leaf)

theorem total_leaf_count_is_flatten_size_witness:
  "(\<exists>r. flatten [Array [Value_bool True, Array [Value_int64 2]], Array [], Value_string ''s''] = Some r
        \<and> length r = 3) \<and>
   total_leaf_count [Value_bool True, Value_bool False] = 2"
  using total_leaf_count_is_flatten_size[of
          "[Array [Value_bool True, Array [Value_int64 2]], Array [], Value_string ''s'']"
          "[]" "[]" "Value_bool True"]
        total_leaf_count_is_flatten_size[of "[]" "[]" "[Value_bool False]" "Value_bool True"]
  by (simp add: numeral_3_eq_3)

text \<open>
  Claim C5: \<^verbatim>\<open>flatten\<close> never fails and yields the depth-first sequence of leaves;
  flattening the result again yields the same sequence; an array without array elements
  is left as it is.
\<close>

theorem flatten_total_idempotent:
  "flatten A = Some (flatten_spec A) \<and>
   (\<exists>r. flatten A = Some r \<and> flatten r = Some r) \<and>
   ((\<forall>x \<in> set A. as_array x = None) \<longrightarrow> flatten A = Some A)"
proof -
  have "\<forall>x \<in> set (flatten_spec A). as_array x = None"
    by (induction A rule: flatten_spec.induct) auto
  then have "flatten_spec (flatten_spec A) = flatten_spec A"
    by (rule flatten_spec_no_arrays)
  then show ?thesis
    by (auto simp: flatten_refines flatten_spec_no_arrays)
qed

theorem flatten_total_idempotent_witness:
  "flatten [Array [Value_bool True, Array [Value_int64 2]], Array [Array []], Value_string ''s'']
     = Some [Value_bool True, Value_int64 2, Value_string ''s''] \<and>
   flatten [Value_bool True, Value_int64 2, Value_string ''s'']
     = Some [Value_bool True, Value_int64 2, Value_string ''s'']"
  using flatten_total_idempotent[of
          "[Array [Value_bool True, Array [Value_int64 2]], Array [Array []], Value_string ''s'']"]
        flatten_total_idempotent[of "[Value_bool True, Value_int64 2, Value_string ''s'']"]
  by simp

section \<open>Properties of the numeric encoder\<close>

lemma print_integer_zero:
  "print_integer_to_stream TOML_INT_CHARCONV out 0 format = out @ ''0''"
  by (simp add: print_integer_to_stream_def)

lemma print_integer_negative_charconv:
  "val <s 0 \<Longrightarrow> print_integer_to_stream True out val format = out @ to_chars (sint val) 10"
  by (auto simp: print_integer_to_stream_def Let_def)

lemma print_integer_nonnegative_charconv:
  "0 <s val \<Longrightarrow>
   print_integer_to_stream True out val format =
     out @ (case format of
              format_as_binary \<Rightarrow> to_chars (sint val) 2
            | format_as_octal \<Rightarrow> to_chars (sint val) 8
            | format_as_hexadecimal \<Rightarrow> map upcase (to_chars (sint val) 16)
            | value_flags_none \<Rightarrow> to_chars (sint val) 10)"
  by (cases format) (auto simp: print_integer_to_stream_def Let_def)

lemma print_integer_negative_octal_hexadecimal:
  "val <s 0 \<Longrightarrow> format \<noteq> format_as_binary \<Longrightarrow>
   print_integer_to_stream False out val format = out @ to_chars (sint val) 10"
  by (auto simp: print_integer_to_stream_def Let_def ostream_int_def)


lemma needs_decimal_point_iff:
  "needs_decimal_point s \<longleftrightarrow> CHR ''.'' \<notin> set s \<and> CHR ''e'' \<notin> set s \<and> CHR ''E'' \<notin> set s"
  by (induction s) auto

text \<open>
  Claim C8: for a finite value the output is the rendered text, followed by \<^verbatim>\<open>.0\<close>
  exactly when the value is not rendered as a hexadecimal float and the text has no
  \<^verbatim>\<open>.\<close>, \<^verbatim>\<open>e\<close> or \<^verbatim>\<open>E\<close>; otherwise nothing is appended.
\<close>

theorem print_floating_point_appends_decimal_point:
  "fpclassify val = ok \<Longrightarrow>
   print_floating_point_to_stream fpclassify flag_and render out val format =
     out @ render val (flag_and format format_as_hexadecimal) @
       (if \<not> flag_and format format_as_hexadecimal
           \<and> CHR ''.'' \<notin> set (render val (flag_and format format_as_hexadecimal))
           \<and> CHR ''e'' \<notin> set (render val (flag_and format format_as_hexadecimal))
           \<and> CHR ''E'' \<notin> set (render val (flag_and format format_as_hexadecimal))
        then ''.0'' else [])"
  by (cases "flag_and format format_as_hexadecimal")
     (simp_all add: print_floating_point_to_stream_def Let_def needs_decimal_point_iff)

theorem print_floating_point_appends_decimal_point_witness:
  "print_floating_point_to_stream (\<lambda>_. ok) (\<lambda>a b. a = b) (\<lambda>v hex. if hex then ''0x1p+0'' else ''1'')
     [] 0 value_flags_none = ''1.0'' \<and>
   print_floating_point_to_stream (\<lambda>_. ok) (\<lambda>a b. a = b) (\<lambda>v hex. if hex then ''0x1p+0'' else ''1'')
     [] 0 format_as_hexadecimal = ''0x1p+0'' \<and>
   print_floating_point_to_stream (\<lambda>_. ok) (\<lambda>a b. a = b) (\<lambda>v hex. ''1e+20'')
     [] 0 value_flags_none = ''1e+20''"
  using print_floating_point_appends_decimal_point[of "\<lambda>_. ok" 0 "\<lambda>a b. a = b"
          "\<lambda>v hex. if hex then ''0x1p+0'' else ''1''" "[]" value_flags_none]
        print_floating_point_appends_decimal_point[of "\<lambda>_. ok" 0 "\<lambda>a b. a = b"
          "\<lambda>v hex. if hex then ''0x1p+0'' else ''1''" "[]" format_as_hexadecimal]
        print_floating_point_appends_decimal_point[of "\<lambda>_. ok" 0 "\<lambda>a b. a = b"
          "\<lambda>v hex. ''1e+20''" "[]" value_flags_none]
  by simp

section \<open>Properties of copy assignment\<close>

lemma map_of_update_entry:
  "map_of (update_entry k v tbl) k' =
     (if k' = k then (case map_of tbl k of None \<Rightarrow> None | Some _ \<Rightarrow> Some v) else map_of tbl k')"
  by (induction tbl) (auto split: option.splits)

lemma update_entry_twice: "update_entry k b (update_entry k a tbl) = update_entry k b tbl"
  by (induction tbl) auto

lemma update_entry_same: "map_of tbl k = Some v \<Longrightarrow> update_entry k v tbl = tbl"
  by (induction tbl) (auto split: if_splits)

lemma lookup_replace_same: "replace n p new = Some n' \<Longrightarrow> lookup n' p = Some new"
proof (induction p arbitrary: n n')
  case Nil
  then show ?case by simp
next
  case (Cons s p)
  show ?case
  proof (cases s)
    case (Index i)
    with Cons.prems show ?thesis
      by (cases n) (auto split: if_splits option.splits dest: Cons.IH)
  next
    case (Key k)
    with Cons.prems show ?thesis
      by (cases n) (auto simp: map_of_update_entry split: if_splits option.splits dest: Cons.IH)
  qed
qed

lemma replace_defined: "lookup n p = Some x \<Longrightarrow> \<exists>n'. replace n p new = Some n'"
proof (induction p arbitrary: n)
  case Nil
  then show ?case by simp
next
  case (Cons s p)
  show ?case
  proof (cases s)
    case (Index i)
    with Cons.prems show ?thesis
      by (cases n) (auto split: if_splits option.splits dest: Cons.IH)
  next
    case (Key k)
    with Cons.prems show ?thesis
      by (cases n) (auto split: if_splits option.splits dest: Cons.IH)
  qed
qed

lemma replace_twice: "replace n p a = Some n1 \<Longrightarrow> replace n1 p b = replace n p b"
proof (induction p arbitrary: n n1)
  case Nil
  then show ?case by simp
next
  case (Cons s p)
  show ?case
  proof (cases s)
    case (Index i)
    with Cons.prems show ?thesis
      by (cases n) (auto split: if_splits option.splits simp: Cons.IH)
  next
    case (Key k)
    with Cons.prems show ?thesis
      by (cases n)
         (auto simp: map_of_update_entry update_entry_twice Cons.IH split: if_splits option.splits)
  qed
qed

lemma replace_same: "lookup n p = Some x \<Longrightarrow> replace n p x = Some n"
proof (induction p arbitrary: n)
  case Nil
  then show ?case by simp
next
  case (Cons s p)
  show ?case
  proof (cases s)
    case (Index i)
    with Cons.prems show ?thesis
      by (cases n) (auto split: if_splits option.splits simp: Cons.IH)
  next
    case (Key k)
    with Cons.prems show ?thesis
      by (cases n) (auto simp: update_entry_same Cons.IH split: if_splits option.splits)
  qed
qed

lemma lookup_replace_other:
  "\<not> prefix p q \<Longrightarrow> \<not> prefix q p \<Longrightarrow> replace n p new = Some n' \<Longrightarrow> lookup n' q = lookup n q"
proof (induction p arbitrary: n n' q)
  case Nil
  then show ?case by simp
next
  case (Cons s p)
  from Cons.prems(2) obtain t q' where q: "q = t # q'" by (cases q) auto
  show ?case
  proof (cases "t = s")
    case True
    with q Cons.prems have np: "\<not> prefix p q'" "\<not> prefix q' p" by auto
    show ?thesis
    proof (cases s)
      case (Index i)
      with Cons.prems(3) q True show ?thesis
        by (cases n) (auto split: if_splits option.splits simp: Cons.IH[OF np])
    next
      case (Key k)
      with Cons.prems(3) q True show ?thesis
        by (cases n)
           (auto simp: map_of_update_entry Cons.IH[OF np] split: if_splits option.splits)
    qed
  next
    case False
    show ?thesis
    proof (cases s)
      case (Index i)
      with Cons.prems(3) q False show ?thesis
        by (cases n; cases t) (auto split: if_splits option.splits)
    next
      case (Key k)
      with Cons.prems(3) q False show ?thesis
        by (cases n; cases t) (auto simp: map_of_update_entry split: if_splits option.splits)
    qed
  qed
qed

lemma set_elems_defined: "elems_of h r = Some d \<Longrightarrow> \<exists>h'. set_elems r e h = Some h'"
proof -
  assume a: "elems_of h r = Some d"
  then obtain root where root: "h (fst r) = Some root" "lookup root (snd r) = Some (Array d)"
    by (auto simp: elems_of_def split: option.splits node.splits)
  from replace_defined[OF root(2)] obtain root' where "replace root (snd r) (Array e) = Some root'"
    by blast
  with a root show ?thesis by (simp add: set_elems_def)
qed

lemma set_elems_root:
  "set_elems r e h = Some h' \<Longrightarrow>
   \<exists>root root'. h (fst r) = Some root \<and> replace root (snd r) (Array e) = Some root'
      \<and> h' = h(fst r \<mapsto> root')"
  by (auto simp: set_elems_def split: option.splits)

lemma elems_of_set_elems_same: "set_elems r e h = Some h' \<Longrightarrow> elems_of h' r = Some e"
  by (auto dest!: set_elems_root simp: elems_of_def lookup_replace_same)

lemma elems_of_set_elems_other:
  "set_elems r e h = Some h' \<Longrightarrow> separate r s \<Longrightarrow> elems_of h' s = elems_of h s"
proof -
  assume a: "set_elems r e h = Some h'" and sep: "separate r s"
  from set_elems_root[OF a] obtain root root' where
    root: "h (fst r) = Some root" "replace root (snd r) (Array e) = Some root'"
          "h' = h(fst r \<mapsto> root')"
    by blast
  show ?thesis
  proof (cases "fst s = fst r")
    case False
    with root show ?thesis by (simp add: elems_of_def)
  next
    case True
    with sep have "\<not> prefix (snd r) (snd s)" "\<not> prefix (snd s) (snd r)"
      by (auto simp: separate_def)
    from lookup_replace_other[OF this root(2)] root True show ?thesis
      by (simp add: elems_of_def)
  qed
qed

lemma set_elems_twice: "set_elems r a h = Some h1 \<Longrightarrow> set_elems r b h1 = set_elems r b h"
proof -
  assume a: "set_elems r a h = Some h1"
  from set_elems_root[OF a] obtain root root' where
    root: "h (fst r) = Some root" "replace root (snd r) (Array a) = Some root'"
          "h1 = h(fst r \<mapsto> root')"
    by blast
  from a have e0: "elems_of h r \<noteq> None" by (auto simp: set_elems_def split: option.splits)
  have e1: "elems_of h1 r = Some a" using a by (rule elems_of_set_elems_same)
  have "replace root' (snd r) (Array b) = replace root (snd r) (Array b)"
    using root(2) by (rule replace_twice)
  with root e0 e1 show ?thesis
    by (auto simp: set_elems_def split: option.splits)
qed

lemma set_elems_same: "elems_of h r = Some d \<Longrightarrow> set_elems r d h = Some h"
proof -
  assume a: "elems_of h r = Some d"
  then obtain root where root: "h (fst r) = Some root" "lookup root (snd r) = Some (Array d)"
    by (auto simp: elems_of_def split: option.splits node.splits)
  from replace_same[OF root(2)] a root show ?thesis
    by (simp add: set_elems_def fun_upd_idem)
qed

lemma copy_elems_spec:
  "separate this rhs \<Longrightarrow> elems_of h rhs = Some src \<Longrightarrow> elems_of h this = Some dst \<Longrightarrow>
   i + n = length src \<Longrightarrow>
   copy_elems this rhs i n h = set_elems this (dst @ map make_node (drop i src)) h"
proof (induction n arbitrary: i dst h)
  case 0
  then show ?case by (simp add: set_elems_same)
next
  case (Suc n)
  have i: "i < length src" using Suc.prems by simp
  have d: "dst @ map make_node (drop i src)
             = (dst @ [make_node (src ! i)]) @ map make_node (drop (Suc i) src)"
    using i by (subst Cons_nth_drop_Suc[symmetric]) simp_all
  from set_elems_defined[OF Suc.prems(3)] obtain h1 where
    h1: "set_elems this (dst @ [make_node (src ! i)]) h = Some h1"
    by blast
  have r1: "elems_of h1 rhs = Some src"
    using elems_of_set_elems_other[OF h1 Suc.prems(1)] Suc.prems(2) by simp
  have t1: "elems_of h1 this = Some (dst @ [make_node (src ! i)])"
    using h1 by (rule elems_of_set_elems_same)
  have "copy_elems this rhs i (Suc n) h = copy_elems this rhs (Suc i) n h1"
    using Suc.prems i h1 by simp
  also have "\<dots> = set_elems this ((dst @ [make_node (src ! i)]) @ map make_node (drop (Suc i) src)) h1"
    using Suc.prems(1) r1 t1 Suc.prems(4) by (intro Suc.IH) simp_all
  also have "\<dots> = set_elems this (dst @ map make_node (drop i src)) h"
    unfolding d[symmetric] using h1 by (rule set_elems_twice)
  finally show ?case .
qed

lemma copy_assign_separate:
  assumes "separate this rhs" "elems_of h this = Some dst" "elems_of h rhs = Some src"
  shows "copy_assign this rhs h = set_elems this (map make_node src) h"
proof -
  from assms(1) have ne: "rhs \<noteq> this" by (auto simp: separate_def)
  from set_elems_defined[OF assms(2)] obtain h0 where h0: "set_elems this [] h = Some h0"
    by blast
  have r0: "elems_of h0 rhs = Some src"
    using elems_of_set_elems_other[OF h0 assms(1)] assms(3) by simp
  have t0: "elems_of h0 this = Some []" using h0 by (rule elems_of_set_elems_same)
  have "copy_elems this rhs 0 (length src) h0 = set_elems this ([] @ map make_node (drop 0 src)) h0"
    using assms(1) r0 t0 by (rule copy_elems_spec) simp
  also have "\<dots> = set_elems this (map make_node src) h"
    using set_elems_twice[OF h0] by simp
  finally show ?thesis
    using ne assms(3) h0 r0 by (simp add: copy_assign_def)
qed

text \<open>
  Claim C10, as amended: copy-assigning an array to itself leaves the store as it is;
  copy-assigning from an array that neither owns the destination nor is owned by it
  replaces the elements of the destination by copies of the source's elements and
  leaves the source as it was.
\<close>

theorem copy_assign_self_and_separate:
  "elems_of h this = Some dst \<and> elems_of h rhs = Some src \<longrightarrow>
     copy_assign this this h = Some h \<and>
     (separate this rhs \<longrightarrow>
        (\<exists>h'. copy_assign this rhs h = Some h' \<and>
              elems_of h' this = Some (map make_node src) \<and>
              elems_of h' rhs = Some src) \<and>
        map make_node src = src)"
proof (intro impI conjI; (elim conjE)?)
  show "copy_assign this this h = Some h" by (simp add: copy_assign_def)
next
  assume a: "elems_of h this = Some dst" "elems_of h rhs = Some src" "separate this rhs"
  from set_elems_defined[OF a(1)] obtain h' where
    h': "set_elems this (map make_node src) h = Some h'"
    by blast
  have "copy_assign this rhs h = Some h'"
    using copy_assign_separate[OF a(3) a(1) a(2)] h' by simp
  moreover have "elems_of h' this = Some (map make_node src)"
    using h' by (rule elems_of_set_elems_same)
  moreover have "elems_of h' rhs = Some src"
    using elems_of_set_elems_other[OF h' a(3)] a(2) by simp
  ultimately show "\<exists>h'. copy_assign this rhs h = Some h' \<and>
              elems_of h' this = Some (map make_node src) \<and>
              elems_of h' rhs = Some src"
    by blast
next
  show "map make_node src = src" by (induction src) (simp_all add: make_node_def)
qed

theorem copy_assign_self_and_separate_witness:
  "copy_assign (1, [Index 0]) (1, [Index 0])
     [1 \<mapsto> Array [Array [Value_bool True], Value_bool False],
      2 \<mapsto> Table False [(''j'', Value_bool True), (''k'', Array [Value_int64 1, Value_int64 2])]]
   = Some [1 \<mapsto> Array [Array [Value_bool True], Value_bool False],
      2 \<mapsto> Table False [(''j'', Value_bool True), (''k'', Array [Value_int64 1, Value_int64 2])]] \<and>
   (\<exists>h'. copy_assign (1, [Index 0]) (2, [Key ''k''])
            [1 \<mapsto> Array [Array [Value_bool True], Value_bool False],
             2 \<mapsto> Table False [(''j'', Value_bool True), (''k'', Array [Value_int64 1, Value_int64 2])]]
           = Some h' \<and>
         elems_of h' (1, [Index 0]) = Some [Value_int64 1, Value_int64 2] \<and>
         elems_of h' (2, [Key ''k'']) = Some [Value_int64 1, Value_int64 2])"
proof -
  let ?h = "[1 \<mapsto> Array [Array [Value_bool True], Value_bool False],
             2 \<mapsto> Table False [(''j'', Value_bool True), (''k'', Array [Value_int64 1, Value_int64 2])]]
            :: store"
  have hyp: "elems_of ?h (1, [Index 0]) = Some [Value_bool True] \<and>
             elems_of ?h (2, [Key ''k'']) = Some [Value_int64 1, Value_int64 2]"
    by (simp add: elems_of_def)
  have sep: "separate (1, [Index 0]) (2, [Key ''k''])"
    by (simp add: separate_def)
  note t = copy_assign_self_and_separate[of ?h "(1, [Index 0])" "[Value_bool True]"
             "(2, [Key ''k''])" "[Value_int64 1, Value_int64 2]", THEN mp, OF hyp]
  have m: "map make_node [Value_int64 1, Value_int64 2] = [Value_int64 1, Value_int64 2]"
    by (simp add: make_node_def)
  show ?thesis
    using t[THEN conjunct1] t[THEN conjunct2, THEN mp, OF sep, THEN conjunct1]
    unfolding m by (rule conjI)
qed

text \<open>
  Claim C10 as stated fails for a source that the destination owns, and for a
  destination that the source owns. In \<^verbatim>\<open>a = *a[0].as_array()\<close> the two arrays are distinct
  objects, \<^verbatim>\<open>elems_.clear()\<close> destroys the source and the code goes on to read it. In
  \<^verbatim>\<open>*a[0].as_array() = a\<close> the assignment returns, but the source \<open>a\<close> has changed and the
  destination does not hold copies of the elements \<open>a\<close> had.
\<close>

theorem copy_assign_owned_source_counterexample:
  "((1, [Index 0]) :: reference) \<noteq> (1, []) \<and>
   elems_of [1 \<mapsto> Array [Array [Value_bool True]]] (1, []) = Some [Array [Value_bool True]] \<and>
   elems_of [1 \<mapsto> Array [Array [Value_bool True]]] (1, [Index 0]) = Some [Value_bool True] \<and>
   copy_assign (1, []) (1, [Index 0]) [1 \<mapsto> Array [Array [Value_bool True]]] = None \<and>
   elems_of [1 \<mapsto> Array [Array [Value_bool True], Value_bool False]] (1, [])
     = Some [Array [Value_bool True], Value_bool False] \<and>
   map_option (\<lambda>h. (elems_of h (1, [Index 0]), elems_of h (1, [])))
     (copy_assign (1, [Index 0]) (1, []) [1 \<mapsto> Array [Array [Value_bool True], Value_bool False]])
     = Some (Some [Array [], Value_bool False],
             Some [Array [Array [], Value_bool False], Value_bool False])"
  by code_simp

section \<open>Properties of the formatter\<close>

declare print_inline.simps [simp del] print_array.simps [simp del] print_node.simps [simp del]
declare print_table.simps [simp del] print_sub_table.simps [simp del]

text \<open>What a printing step leaves alone: the key path and the indentation level.\<close>

lemma key_path_primitives [simp]:
  "key_path (print_to_stream s f) = key_path f"
  "key_path (print_newline force f) = key_path f"
  "key_path (print_indent E f) = key_path f"
  "key_path (clear_naked_newline f) = key_path f"
  "key_path (print_value E v f) = key_path f"
  "key_path (print_key_segment E k f) = key_path f"
  "key_path (print_pending_table_separator f) = key_path f"
  "key_path (increase_indent f) = key_path f"
  "key_path (decrease_indent f) = key_path f"
  by (simp_all add: print_to_stream_def print_newline_def print_indent_def
        clear_naked_newline_def print_value_def print_key_segment_def
        print_pending_table_separator_def increase_indent_def decrease_indent_def)

lemma indent_primitives [simp]:
  "indent (print_to_stream s f) = indent f"
  "indent (print_newline force f) = indent f"
  "indent (print_indent E f) = indent f"
  "indent (clear_naked_newline f) = indent f"
  "indent (print_value E v f) = indent f"
  "indent (print_key_segment E k f) = indent f"
  "indent (print_pending_table_separator f) = indent f"
  "indent (increase_indent f) = indent f + 1"
  "indent (decrease_indent f) = indent f - 1"
  "indent (push_key k f) = indent f"
  "indent (pop_key f) = indent f"
  by (simp_all add: print_to_stream_def print_newline_def print_indent_def
        clear_naked_newline_def print_value_def print_key_segment_def
        print_pending_table_separator_def increase_indent_def decrease_indent_def
        push_key_def pop_key_def)

lemma frame_key_path_segments [simp]:
  "key_path (print_key_path_segments E later segments f) = key_path f"
  "indent (print_key_path_segments E later segments f) = indent f"
  by (induction segments arbitrary: f later) simp_all

lemma frame_key_path [simp]:
  "key_path (print_key_path E f) = key_path f"
  "indent (print_key_path E f) = indent f"
  by (simp_all add: print_key_path_def)

lemma frame_inline_array:
  "key_path (print_inline E tbl fmt) = key_path fmt \<and> indent (print_inline E tbl fmt) = indent fmt"
  "key_path (print_inline_entries E first tbl fmt) = key_path fmt
     \<and> indent (print_inline_entries E first tbl fmt) = indent fmt"
  "key_path (print_array E arr fmt) = key_path fmt \<and> indent (print_array E arr fmt) = indent fmt"
  "key_path (print_array_elements E multiline i arr fmt) = key_path fmt
     \<and> indent (print_array_elements E multiline i arr fmt) = indent fmt"
  "key_path (print_node E v fmt) = key_path fmt \<and> indent (print_node E v fmt) = indent fmt"
proof (induction E tbl fmt and E first tbl fmt and E arr fmt and E multiline i arr fmt and E v fmt
       rule: print_inline_print_inline_entries_print_array_print_array_elements_print_node.induct)
  case (1 E tbl fmt)
  then show ?case
    by (simp add: print_inline.simps)
next
  case (2 E first fmt)
  then show ?case by simp
next
  case (3 E first k v tbl fmt)
  note ih1 = "3.IH"(1)[OF refl refl refl]
  note ih2 = "3.IH"(2)[OF refl refl refl refl]
  show ?case
    using ih1 ih2 by (simp add: Let_def)
next
  case (4 E arr fmt)
  show ?case
  proof (cases "arr = []")
    case True
    then show ?thesis by (simp add: print_array.simps)
  next
    case False
    define ml where
      "ml = forces_multiline E (Array arr)
              (indent_columns E * word_of_int (if indent fmt < 0 then 0 else indent fmt))"
    define f1 where
      "f1 = (if ml
             then (let fmt = (if indent fmt < 0 then (print_to_stream ''['' fmt)\<lparr>indent := 0\<rparr>
                              else print_to_stream ''['' fmt)
                   in if indent_array_elements E then increase_indent fmt else fmt)
             else print_to_stream '' '' (print_to_stream ''['' fmt))"
    have ih: "key_path (print_array_elements E ml 0 arr f1) = key_path f1
            \<and> indent (print_array_elements E ml 0 arr f1) = indent f1"
      using "4.IH"[OF False refl refl refl refl] unfolding ml_def f1_def by simp
    have f1: "key_path f1 = key_path fmt" "\<not> ml \<Longrightarrow> indent f1 = indent fmt"
      by (simp_all add: f1_def Let_def)
    have "print_array E arr fmt =
        clear_naked_newline (print_to_stream '']''
          (if ml
           then print_indent E (print_newline True
                  ((print_array_elements E ml 0 arr f1)\<lparr>indent := indent fmt\<rparr>))
           else print_to_stream '' '' (print_array_elements E ml 0 arr f1)))"
      using False by (simp add: print_array.simps Let_def ml_def f1_def)
    then show ?thesis
      using ih f1 by (cases ml) simp_all
  qed
next
  case (5 E multiline i fmt)
  then show ?case by simp
next
  case (6 E multiline i v arr fmt)
  note ih1 = "6.IH"(1)[OF refl refl]
  note ih2 = "6.IH"(2)[OF refl refl refl]
  show ?case
    using ih1 ih2 by (simp add: Let_def)
next
  case (7 E v fmt)
  then show ?case
    by (cases v) (simp_all add: print_node.simps)
qed

lemma frame_table_values:
  "key_path (print_table_values E tbl fmt) = key_path fmt
     \<and> indent (print_table_values E tbl fmt) = indent fmt"
  by (induction E tbl fmt rule: print_table_values.induct)
     (simp_all add: Let_def frame_inline_array(5))

lemma key_path_push_pop [simp]:
  "key_path (push_key k f) = key_path f @ [k]"
  "key_path (pop_key f) = butlast (key_path f)"
  by (simp_all add: push_key_def pop_key_def)

lemma frame_table_header [simp]:
  "key_path (print_table_header E f) = key_path f"
  "indent (print_table_header E f) = indent f + (if indent_sub_tables E then 1 else 0)"
  "key_path (print_table_array_header E f) = key_path f"
  "indent (print_table_array_header E f) = indent f"
  by (simp_all add: print_table_header_def print_table_array_header_def Let_def)

lemma frame_table:
  "key_path (print_table E tbl fmt) = key_path fmt \<and> indent (print_table E tbl fmt) = indent fmt"
  "key_path (print_table_tables E tbl fmt) = key_path fmt
     \<and> indent (print_table_tables E tbl fmt) = indent fmt"
  "key_path (print_sub_table E k child_tbl fmt) = key_path fmt
     \<and> indent (print_sub_table E k child_tbl fmt) = indent fmt"
  "key_path (print_table_arrays E tbl fmt) = key_path fmt
     \<and> indent (print_table_arrays E tbl fmt) = indent fmt"
  "key_path (print_table_array_elements E arr fmt) = key_path fmt
     \<and> indent (print_table_array_elements E arr fmt) = indent fmt"
proof (induction E tbl fmt and E tbl fmt and E k child_tbl fmt and E tbl fmt and E arr fmt
       rule: print_table_print_table_tables_print_sub_table_print_table_arrays_print_table_array_elements.induct)
  case (1 E tbl fmt)
  then show ?case
    by (simp add: print_table.simps frame_table_values)
next
  case (2 E fmt)
  show ?case by simp
next
  case (3 E kv tbl fmt)
  show ?case
  proof (cases "snd kv")
    case (Table inl child_tbl)
    show ?thesis
    proof (cases inl)
      case True
      with Table "3.IH"(1) show ?thesis by simp
    next
      case False
      with Table "3.IH"(2)[OF Table] "3.IH"(3)[OF Table] show ?thesis by simp
    qed
  qed (use "3.IH" in simp_all)
next
  case (4 E k child_tbl fmt)
  define f1 where
    "f1 = (if \<not> skip_self child_tbl then print_table_header E (push_key k fmt) else push_key k fmt)"
  have ih: "key_path (print_table E child_tbl f1) = key_path f1
          \<and> indent (print_table E child_tbl f1) = indent f1"
    using "4.IH"[OF refl refl refl] unfolding f1_def by simp
  have f1: "key_path f1 = key_path fmt @ [k]"
     "indent f1 = indent fmt + (if \<not> skip_self child_tbl \<and> indent_sub_tables E then 1 else 0)"
    by (simp_all add: f1_def)
  have "print_sub_table E k child_tbl fmt =
      (if \<not> skip_self child_tbl \<and> indent_sub_tables E
       then decrease_indent (pop_key (print_table E child_tbl f1))
       else pop_key (print_table E child_tbl f1))"
    by (simp add: print_sub_table.simps Let_def f1_def)
  then show ?case using ih f1 by simp
next
  case (5 E fmt)
  show ?case by simp
next
  case (6 E kv tbl fmt)
  show ?case
  proof (cases "snd kv")
    case (Array arr)
    show ?thesis
    proof (cases "is_non_inline_array_of_tables (snd kv)")
      case False
      with Array "6.IH"(2)[OF Array False] show ?thesis by simp
    next
      case True
      define f1 where
        "f1 = push_key (fst kv) (if indent_sub_tables E then increase_indent fmt else fmt)"
      define f2 where "f2 = print_table_array_elements E arr f1"
      define f3 where
        "f3 = (if indent_sub_tables E then decrease_indent (pop_key f2) else pop_key f2)"
      have ih1: "key_path f2 = key_path f1 \<and> indent f2 = indent f1"
        using "6.IH"(3)[OF Array _ refl refl] True unfolding f1_def f2_def by simp
      have ih2: "key_path (print_table_arrays E tbl f3) = key_path f3
              \<and> indent (print_table_arrays E tbl f3) = indent f3"
        using "6.IH"(4)[OF Array _ refl refl refl refl refl] True
        unfolding f1_def f2_def f3_def by simp
      have "print_table_arrays E (kv # tbl) fmt = print_table_arrays E tbl f3"
        using Array True by (simp add: Let_def f1_def f2_def f3_def)
      moreover have "key_path f3 = key_path fmt \<and> indent f3 = indent fmt"
        using ih1 by (simp add: f3_def f1_def)
      ultimately show ?thesis using ih2 by simp
    qed
  qed (use "6.IH" in simp_all)
next
  case (7 E fmt)
  show ?case by simp
next
  case (8 E elem arr fmt)
  show ?case
  proof (cases elem)
    case (Table inl elem_tbl)
    with "8.IH"(1)[OF Table] "8.IH"(2)[OF Table] show ?thesis by simp
  qed (use "8.IH" in simp_all)
qed

lemma stream_primitives [simp]:
  "stream (print_to_stream s f) = stream f @ s"
  "stream (print_key_segment E k f) = stream f @ key_text E k"
  "stream (print_value E v f) = stream f @ value_text E v"
  "stream (clear_naked_newline f) = stream f"
  "stream (increase_indent f) = stream f"
  "stream (decrease_indent f) = stream f"
  "stream (push_key k f) = stream f"
  "stream (pop_key f) = stream f"
  "stream (print_indent E f) = stream f @ concat (replicate (nat (indent f)) (indent_string E))"
  "stream (print_pending_table_separator f) =
     stream f @ (if pending_table_separator f then [CHR 0x0A, CHR 0x0A] else [])"
  by (simp_all add: print_to_stream_def print_key_segment_def print_value_def
        clear_naked_newline_def increase_indent_def decrease_indent_def push_key_def pop_key_def
        print_indent_def print_pending_table_separator_def print_newline_def)

lemma stream_key_path_segments:
  "stream (print_key_path_segments E later segments f) =
     stream f @ (if later \<and> segments \<noteq> [] then ''.'' else []) @ dotted_key_path E segments"
proof (induction segments arbitrary: later f)
  case Nil
  show ?case by simp
next
  case (Cons segment segments)
  have "stream (print_key_path_segments E later (segment # segments) f) =
      stream (print_key_segment E segment (if later then print_to_stream ''.'' f else f))
        @ (if True \<and> segments \<noteq> [] then ''.'' else []) @ dotted_key_path E segments"
    unfolding print_key_path_segments.simps by (rule Cons.IH)
  then show ?case by (cases segments) simp_all
qed

lemma stream_key_path [simp]:
  "stream (print_key_path E f) = stream f @ dotted_key_path E (key_path f)"
  by (simp add: print_key_path_def stream_key_path_segments)

lemma stream_table_header:
  "stream (print_table_header E f) =
     stream f @ (if pending_table_separator f then [CHR 0x0A, CHR 0x0A] else [])
       @ concat (replicate (nat (indent f + (if indent_sub_tables E then 1 else 0))) (indent_string E))
       @ ''['' @ dotted_key_path E (key_path f) @ '']''"
  by (simp add: print_table_header_def Let_def)

lemma count_children_spec:
  "count_children tbl (a, b, c) =
     (a + length (filter (\<lambda>kv. value_like (snd kv)) tbl),
      b + length (filter (\<lambda>kv. type (snd kv) = table \<and> \<not> is_inline (snd kv)) tbl),
      c + length (filter (\<lambda>kv. is_non_inline_array_of_tables (snd kv)) tbl))"
proof (induction tbl arbitrary: a b c)
  case Nil
  show ?case by simp
next
  case (Cons kv tbl)
  obtain k v where kv: "kv = (k, v)" by (cases kv)
  have na: "type v \<noteq> array \<Longrightarrow> \<not> is_non_inline_array_of_tables v"
    by (cases v) (simp_all add: is_non_inline_array_of_tables_def)
  show ?case
    unfolding kv using na
    by (cases "type v") (simp_all add: Cons.IH value_like_def)
qed

lemma skip_self_iff:
  "skip_self child_tbl \<longleftrightarrow>
     length (filter (\<lambda>kv. value_like (snd kv)) child_tbl) = 0 \<and>
     (length (filter (\<lambda>kv. type (snd kv) = table \<and> \<not> is_inline (snd kv)) child_tbl) > 0 \<or>
      length (filter (\<lambda>kv. is_non_inline_array_of_tables (snd kv)) child_tbl) > 0)"
  by (simp add: skip_self_def count_children_spec)

lemma is_non_inline_array_of_tables_iff:
  "is_non_inline_array_of_tables nde \<longleftrightarrow>
     (\<exists>arr. nde = Array arr \<and> arr \<noteq> [] \<and> (\<forall>e \<in> set arr. type e = table) \<and> (\<forall>e \<in> set arr. \<not> is_inline e))"
proof (cases nde)
  case (Array arr)
  show ?thesis
  proof (cases arr)
    case Nil
    with Array show ?thesis
      by (simp add: is_non_inline_array_of_tables_def is_array_of_tables_def is_homogeneous_def)
  next
    case (Cons e es)
    with Array show ?thesis
      by (auto simp: is_non_inline_array_of_tables_def is_array_of_tables_def is_homogeneous_def
                     all_of_type_iff list_all_iff)
  qed
qed (simp_all add: is_non_inline_array_of_tables_def)

text \<open>
  Claim C3: the predicate that gates the \<^verbatim>\<open>[[key]]\<close> layout holds iff the node is a
  non-empty array whose elements all carry the tag table and none of which is inline. An
  array of tables with an inline element is passed over by the third loop and written by
  the first loop as \<^verbatim>\<open>key = [ ... ]\<close>.
\<close>

theorem array_of_tables_gate:
  "(is_non_inline_array_of_tables nde \<longleftrightarrow>
      (\<exists>arr. nde = Array arr \<and> arr \<noteq> [] \<and> (\<forall>e \<in> set arr. type e = table)
                \<and> (\<forall>e \<in> set arr. \<not> is_inline e))) \<and>
   (arr \<noteq> [] \<and> (\<forall>e \<in> set arr. type e = table) \<and> (\<exists>e \<in> set arr. is_inline e) \<longrightarrow>
      print_table_arrays E ((k, Array arr) # tbl) fmt = print_table_arrays E tbl fmt \<and>
      print_table_values E ((k, Array arr) # tbl) fmt =
        print_table_values E tbl
          (print_array E arr (print_to_stream '' = '' (print_key_segment E k (print_indent E
             (print_newline False (fmt\<lparr>pending_table_separator := True\<rparr>)))))))"
proof (intro conjI impI)
  show "is_non_inline_array_of_tables nde \<longleftrightarrow>
      (\<exists>arr. nde = Array arr \<and> arr \<noteq> [] \<and> (\<forall>e \<in> set arr. type e = table)
                \<and> (\<forall>e \<in> set arr. \<not> is_inline e))"
    by (rule is_non_inline_array_of_tables_iff)
next
  assume a: "arr \<noteq> [] \<and> (\<forall>e \<in> set arr. type e = table) \<and> (\<exists>e \<in> set arr. is_inline e)"
  then have n: "\<not> is_non_inline_array_of_tables (Array arr)"
    by (simp add: is_non_inline_array_of_tables_iff)
  then show "print_table_arrays E ((k, Array arr) # tbl) fmt = print_table_arrays E tbl fmt"
    by simp
  from n show "print_table_values E ((k, Array arr) # tbl) fmt =
        print_table_values E tbl
          (print_array E arr (print_to_stream '' = '' (print_key_segment E k (print_indent E
             (print_newline False (fmt\<lparr>pending_table_separator := True\<rparr>))))))"
    by (simp add: Let_def print_node.simps)
qed

theorem array_of_tables_gate_witness:
  "is_non_inline_array_of_tables (Array [Table False [], Table False []]) \<and>
   \<not> is_non_inline_array_of_tables (Array [Table False [], Table True []]) \<and>
   stream (print_table example_env [(''a'', Array [Table False [], Table True []])] (attach [] default_formatter))
     = ''a = [ {}, {} ]''"
proof -
  have a: "is_non_inline_array_of_tables (Array [Table False [], Table False []])"
    using array_of_tables_gate[of "Array [Table False [], Table False []]" "[]"]
    by simp
  have h: "[Table False [], Table True []] \<noteq> [] \<and>
           (\<forall>e \<in> set [Table False [], Table True []]. type e = table) \<and>
           (\<exists>e \<in> set [Table False [], Table True []]. is_inline e)"
    by simp
  have b: "\<not> is_non_inline_array_of_tables (Array [Table False [], Table True []])"
    using array_of_tables_gate[of "Array [Table False [], Table True []]" "[]"]
    by simp
  let ?tbl = "[(''a'', Array [Table False [], Table True []])]"
  let ?f = "print_table_tables example_env ?tbl
              (print_table_values example_env ?tbl (attach [] default_formatter))"
  note g = array_of_tables_gate[of "Array []" "[Table False [], Table True []]" example_env
             "''a''" "[]" ?f]
  have c: "print_table_arrays example_env ?tbl ?f = print_table_arrays example_env [] ?f"
    using g[THEN conjunct2, THEN mp, OF h, THEN conjunct1] .
  have d: "stream (print_table_arrays example_env [] ?f) = ''a = [ {}, {} ]''"
    by code_simp
  have "stream (print_table example_env ?tbl (attach [] default_formatter)) = ''a = [ {}, {} ]''"
    unfolding print_table.simps c by (rule d)
  with a b show ?thesis by (intro conjI)
qed

text \<open>
  Claim C6: \<^verbatim>\<open>skip_self\<close> holds iff the sub-table has no value-like child and at least one
  child that is a non-inline table or an array of tables. When it holds, the entry is
  printed as its children under the key path extended by its key, with no header of its
  own; otherwise the header \<^verbatim>\<open>[dotted.path.key]\<close> is written first (after the pending
  separator and the indentation). In both cases the key path and the indentation level
  are afterwards what they were before.
\<close>

theorem sub_table_header_skipped_or_emitted:
  "(skip_self child_tbl \<longleftrightarrow>
      length (filter (\<lambda>kv. value_like (snd kv)) child_tbl) = 0 \<and>
      (length (filter (\<lambda>kv. type (snd kv) = table \<and> \<not> is_inline (snd kv)) child_tbl) > 0 \<or>
       length (filter (\<lambda>kv. is_non_inline_array_of_tables (snd kv)) child_tbl) > 0)) \<and>
   (skip_self child_tbl \<longrightarrow>
      print_sub_table E k child_tbl fmt = pop_key (print_table E child_tbl (push_key k fmt))) \<and>
   (\<not> skip_self child_tbl \<longrightarrow>
      stream (print_table_header E (push_key k fmt)) =
        stream fmt @ (if pending_table_separator fmt then [CHR 0x0A, CHR 0x0A] else [])
          @ concat (replicate (nat (indent fmt + (if indent_sub_tables E then 1 else 0))) (indent_string E))
          @ ''['' @ dotted_key_path E (key_path fmt @ [k]) @ '']'' \<and>
      stream (print_sub_table E k child_tbl fmt) =
        stream (print_table E child_tbl (print_table_header E (push_key k fmt)))) \<and>
   key_path (print_sub_table E k child_tbl fmt) = key_path fmt \<and>
   indent (print_sub_table E k child_tbl fmt) = indent fmt"
proof (intro conjI impI)
  show "skip_self child_tbl \<longleftrightarrow>
      length (filter (\<lambda>kv. value_like (snd kv)) child_tbl) = 0 \<and>
      (length (filter (\<lambda>kv. type (snd kv) = table \<and> \<not> is_inline (snd kv)) child_tbl) > 0 \<or>
       length (filter (\<lambda>kv. is_non_inline_array_of_tables (snd kv)) child_tbl) > 0)"
    by (rule skip_self_iff)
next
  assume "skip_self child_tbl"
  then show "print_sub_table E k child_tbl fmt = pop_key (print_table E child_tbl (push_key k fmt))"
    by (simp add: print_sub_table.simps Let_def)
next
  assume "\<not> skip_self child_tbl"
  then show "stream (print_sub_table E k child_tbl fmt) =
        stream (print_table E child_tbl (print_table_header E (push_key k fmt)))"
    by (simp add: print_sub_table.simps Let_def)
next
  show "stream (print_table_header E (push_key k fmt)) =
        stream fmt @ (if pending_table_separator fmt then [CHR 0x0A, CHR 0x0A] else [])
          @ concat (replicate (nat (indent fmt + (if indent_sub_tables E then 1 else 0))) (indent_string E))
          @ ''['' @ dotted_key_path E (key_path fmt @ [k]) @ '']''"
    by (simp add: stream_table_header push_key_def)
next
  show "key_path (print_sub_table E k child_tbl fmt) = key_path fmt"
    using frame_table(3) by blast
next
  show "indent (print_sub_table E k child_tbl fmt) = indent fmt"
    using frame_table(3) by blast
qed

theorem sub_table_header_skipped_or_emitted_witness:
  "stream (print_sub_table example_env ''g'' [(''t'', Table False [(''b'', Value_bool True)])]
             default_formatter)
     = ''    [g.t]'' @ [CHR 0x0A] @ ''    b = true'' \<and>
   stream (print_sub_table example_env ''g'' [(''b'', Value_bool True)] default_formatter)
     = ''    [g]'' @ [CHR 0x0A] @ ''    b = true'' \<and>
   key_path (print_sub_table example_env ''g'' [(''t'', Table False [(''b'', Value_bool True)])]
             default_formatter) = []"
proof -
  have skip: "skip_self [(''t'', Table False [(''b'', Value_bool True)])]"
    by code_simp
  have no_skip: "\<not> skip_self [(''b'', Value_bool True)]"
    by code_simp
  have a: "print_sub_table example_env ''g'' [(''t'', Table False [(''b'', Value_bool True)])]
             default_formatter
         = pop_key (print_table example_env [(''t'', Table False [(''b'', Value_bool True)])]
                (push_key ''g'' default_formatter))"
    and c: "key_path (print_sub_table example_env ''g''
              [(''t'', Table False [(''b'', Value_bool True)])] default_formatter)
            = key_path default_formatter"
    using sub_table_header_skipped_or_emitted[of "[(''t'', Table False [(''b'', Value_bool True)])]"
            example_env "''g''" default_formatter] skip
    by blast+
  have b: "stream (print_sub_table example_env ''g'' [(''b'', Value_bool True)] default_formatter)
         = stream (print_table example_env [(''b'', Value_bool True)]
                (print_table_header example_env (push_key ''g'' default_formatter)))"
    using sub_table_header_skipped_or_emitted[of "[(''b'', Value_bool True)]"
            example_env "''g''" default_formatter] no_skip
    by blast
  have a': "stream (pop_key (print_table example_env [(''t'', Table False [(''b'', Value_bool True)])]
                (push_key ''g'' default_formatter))) = ''    [g.t]'' @ [CHR 0x0A] @ ''    b = true''"
    by code_simp
  have b': "stream (print_table example_env [(''b'', Value_bool True)]
                (print_table_header example_env (push_key ''g'' default_formatter)))
              = ''    [g]'' @ [CHR 0x0A] @ ''    b = true''"
    by code_simp
  have c': "key_path default_formatter = []" by (simp add: default_formatter_def)
  have 1: "stream (print_sub_table example_env ''g''
        [(''t'', Table False [(''b'', Value_bool True)])] default_formatter)
     = ''    [g.t]'' @ [CHR 0x0A] @ ''    b = true''"
    unfolding a by (rule a')
  have 2: "stream (print_sub_table example_env ''g'' [(''b'', Value_bool True)]
        default_formatter) = ''    [g]'' @ [CHR 0x0A] @ ''    b = true''"
    unfolding b by (rule b')
  have 3: "key_path (print_sub_table example_env ''g''
        [(''t'', Table False [(''b'', Value_bool True)])] default_formatter) = []"
    unfolding c by (rule c')
  from 1 2 3 show ?thesis by (intro conjI)
qed

lemma operator_shift_left_start:
  "operator_shift_left E src lhs rhs =
     (stream (print E src ((attach lhs rhs)\<lparr>key_path := []\<rparr>)),
      detach (print E src ((attach lhs rhs)\<lparr>key_path := []\<rparr>)))"
  "key_path ((attach lhs rhs)\<lparr>key_path := []\<rparr>) = []"
  "pending_table_separator ((attach lhs rhs)\<lparr>key_path := []\<rparr>) = pending_table_separator rhs"
  by (simp_all add: operator_shift_left_def Let_def attach_def)

text \<open>
  Claim C1 at a failing input: \<^verbatim>\<open>operator<<\<close> clears the key path but leaves
  \<^verbatim>\<open>pending_table_separator_\<close> as the previous print left it. Printing the table
  \<^verbatim>\<open>{ t = { b = true } }\<close> twice with one formatter writes \<^verbatim>\<open>[t]\<close> first at the start
  of the output and the second time after two newlines.
\<close>

theorem second_print_keeps_pending_separator:
  "(let src = Source (Table False [(''t'', Table False [(''b'', Value_bool True)])]);
        first_print = operator_shift_left example_env src [] default_formatter;
        second_print = operator_shift_left example_env src [] (snd first_print)
    in fst first_print = ''[t]'' @ [CHR 0x0A] @ ''b = true'' \<and>
       pending_table_separator (snd first_print) \<and>
       pending_table_separator ((attach [] (snd first_print))\<lparr>key_path := []\<rparr>) \<and>
       fst second_print = [CHR 0x0A, CHR 0x0A] @ ''[t]'' @ [CHR 0x0A] @ ''b = true'')"
  by code_simp

end
